theory Spec2Isabelle
  imports Complex_Main
begin

chapter \<open>GracyBot plugin runtime: a shallow embedding of the core modules\<close>

text \<open>
  The development follows the Python sources \<^verbatim>\<open>core/plugin_manager.py\<close>,
  \<^verbatim>\<open>core/security_manager.py\<close>, \<^verbatim>\<open>core/handler.py\<close> and
  \<^verbatim>\<open>core/monitor.py\<close>.  Conventions used throughout:

  \<^item> a Python \<^verbatim>\<open>str\<close> is a \<^typ>\<open>string\<close>; characters are the 256 code points of
    Latin-1, among which the regular-expression class \<^verbatim>\<open>\d\<close> matches exactly
    \<^verbatim>\<open>0\<close> to \<^verbatim>\<open>9\<close>;
  \<^item> a Python \<^verbatim>\<open>int\<close> is an \<^typ>\<open>int\<close>;
  \<^item> the clock value returned by \<^verbatim>\<open>time.time()\<close> is a \<^typ>\<open>real\<close> handed to the
    function as an argument;
  \<^item> a raised exception is the left summand of a sum type;
  \<^item> log lines are recorded only where a property speaks about them; the Chinese
    message texts are represented by constructors of a datatype.
\<close>

section \<open>Values and operations of the Python run time\<close>

text \<open>
  A raised exception with its message.  \<^verbatim>\<open>except Exception\<close> catches the instances of
  \<^verbatim>\<open>Exception\<close>; the interpreter's exit requests (\<^verbatim>\<open>SystemExit\<close>,
  \<^verbatim>\<open>KeyboardInterrupt\<close>, \<^verbatim>\<open>GeneratorExit\<close>) are not instances of it and pass through.
\<close>

datatype py_exception = Exception string | ExitRequest string

text \<open>The outcome of a call: an exception leaves it, or it returns a value.\<close>

datatype 'a outcome = Raised py_exception | Returned 'a

fun is_Exception :: "py_exception \<Rightarrow> bool" where
  "is_Exception (Exception _) = True"
| "is_Exception (ExitRequest _) = False"

text \<open>
  \<^verbatim>\<open>bool(t)\<close> for a tuple \<open>t\<close> of two components: a tuple is false only when it is
  empty.
\<close>

definition tuple_truthy :: "'a \<times> 'b \<Rightarrow> bool" where
  "tuple_truthy t = True"

text \<open>\<^verbatim>\<open>str.strip()\<close>: the white space among the Latin-1 characters.\<close>

definition is_space :: "char \<Rightarrow> bool" where
  "is_space c \<longleftrightarrow> (of_char c :: nat) \<in> {9, 10, 11, 12, 13, 28, 29, 30, 31, 32, 133, 160}"

definition strip :: "string \<Rightarrow> string" where
  "strip s = rev (dropWhile is_space (rev (dropWhile is_space s)))"

text \<open>\<^verbatim>\<open>str.lower()\<close> on Latin-1 characters.\<close>

definition lower_char :: "char \<Rightarrow> char" where
  "lower_char c =
     (let n = (of_char c :: nat)
      in if (65 \<le> n \<and> n \<le> 90) \<or> (192 \<le> n \<and> n \<le> 214) \<or> (216 \<le> n \<and> n \<le> 222)
         then char_of (n + 32) else c)"

definition lower :: "string \<Rightarrow> string" where
  "lower s = map lower_char s"

text \<open>
  \<^verbatim>\<open>s.replace(sub, "")\<close> for a non-empty \<open>sub\<close>: the occurrences of \<open>sub\<close> are
  removed from left to right; \<open>k\<close> counts the characters of a found occurrence that are
  still to be skipped.
\<close>

fun remove_all :: "string \<Rightarrow> nat \<Rightarrow> string \<Rightarrow> string" where
  "remove_all sub k [] = []"
| "remove_all sub (Suc k) (c # cs) = remove_all sub k cs"
| "remove_all sub 0 (c # cs) =
     (if sub \<noteq> [] \<and> take (length sub) (c # cs) = sub
      then remove_all sub (length sub - 1) cs
      else c # remove_all sub 0 cs)"

text \<open>
  Python's \<^verbatim>\<open>cmd in raw_msg\<close> on strings: \<open>cmd\<close> occurs in \<open>raw_msg\<close> as a contiguous
  block, at any position.
\<close>

fun str_contains :: "string \<Rightarrow> string \<Rightarrow> bool" where
  "str_contains sub [] = (sub = [])"
| "str_contains sub (c # cs) = (take (length sub) (c # cs) = sub \<or> str_contains sub cs)"

text \<open>Assignment \<^verbatim>\<open>d[k] = v\<close>: replace the value of an existing key in place, or
  append a new key.\<close>

fun dict_set :: "('k \<times> 'v) list \<Rightarrow> 'k \<Rightarrow> 'v \<Rightarrow> ('k \<times> 'v) list" where
  "dict_set [] k v = [(k, v)]"
| "dict_set ((k', v') # d) k v = (if k' = k then (k, v) # d else (k', v') # dict_set d k v)"

text \<open>\<^verbatim>\<open>sep.join(xs)\<close> and \<^verbatim>\<open>xs.index(x)\<close> (the latter is only called for an \<open>x\<close> that
  is in \<open>xs\<close>).\<close>

fun join :: "string \<Rightarrow> string list \<Rightarrow> string" where
  "join sep [] = []"
| "join sep [x] = x"
| "join sep (x # y # ys) = x @ sep @ join sep (y # ys)"

fun index_of :: "'a \<Rightarrow> 'a list \<Rightarrow> nat" where
  "index_of x [] = 0"
| "index_of x (y # ys) = (if x = y then 0 else Suc (index_of x ys))"

section \<open>Version strings (\<^verbatim>\<open>PluginManager.parse_version\<close>, \<^verbatim>\<open>compare_versions\<close>)\<close>

text \<open>
  \<^verbatim>\<open>re.findall(r'\d+', version)\<close> returns the maximal runs of digits from left to
  right; \<open>digit_runs acc s\<close> scans \<open>s\<close> with the run collected so far in \<open>acc\<close>.
\<close>

definition is_digit :: "char \<Rightarrow> bool" where
  "is_digit c = (c \<in> set ''0123456789'')"

definition digit_val :: "char \<Rightarrow> int" where
  "digit_val c = int (of_char c) - 48"

fun digit_runs :: "string \<Rightarrow> string \<Rightarrow> string list" where
  "digit_runs acc [] = (if acc = [] then [] else [acc])"
| "digit_runs acc (c # cs) =
     (if is_digit c then digit_runs (acc @ [c]) cs
      else (if acc = [] then [] else [acc]) @ digit_runs [] cs)"

definition int_of_digits :: "string \<Rightarrow> int" where
  "int_of_digits ds = foldl (\<lambda>n c. 10 * n + digit_val c) 0 ds"

text \<open>
  \<^verbatim>\<open>int(part)\<close> reads a run of digits in base ten.  Since CPython 3.11 (and the
  security releases of 3.7 to 3.10) the conversion raises \<^verbatim>\<open>ValueError\<close> when the
  run has more digits than \<^verbatim>\<open>sys.get_int_max_str_digits()\<close>: the test in the
  interpreter is \<^verbatim>\<open>digits > 640 and max_str_digits > 0 and digits > max_str_digits\<close>,
  leading zeros counted.  The limit is \<open>4300\<close> unless the process changes it, and \<open>0\<close>
  switches the test off (an interpreter without the test behaves like limit \<open>0\<close>).
  The limit is an argument of the model; \<open>py_int\<close> is \<open>None\<close> where \<^verbatim>\<open>int\<close> raises.
\<close>

definition str_digits_check_threshold :: nat where
  "str_digits_check_threshold = 640"

definition default_max_str_digits :: nat where
  "default_max_str_digits = 4300"

definition py_int :: "nat \<Rightarrow> string \<Rightarrow> int option" where
  "py_int max_str_digits part =
     (if str_digits_check_threshold < length part \<and> 0 < max_str_digits
         \<and> max_str_digits < length part
      then None else Some (int_of_digits part))"

text \<open>The comprehension \<^verbatim>\<open>[int(part) for part in parts]\<close>: the first conversion that
  raises ends it.\<close>

fun int_each :: "nat \<Rightarrow> string list \<Rightarrow> int list option" where
  "int_each max_str_digits [] = Some []"
| "int_each max_str_digits (part # parts) =
     (case py_int max_str_digits part of
        None \<Rightarrow> None
      | Some n \<Rightarrow>
          (case int_each max_str_digits parts of
             None \<Rightarrow> None
           | Some ns \<Rightarrow> Some (n # ns)))"

text \<open>
  \<^verbatim>\<open>parse_version\<close>.  The only statement of the \<^verbatim>\<open>try\<close> block that raises on a
  \<^verbatim>\<open>str\<close> is the conversion, with a \<^verbatim>\<open>ValueError\<close>; the \<^verbatim>\<open>except Exception\<close> branch
  catches it, writes to the log and returns \<^verbatim>\<open>[0]\<close> for the whole version.
\<close>

definition parse_version :: "nat \<Rightarrow> string \<Rightarrow> int list" where
  "parse_version max_str_digits version =
     (case int_each max_str_digits (digit_runs [] version) of
        Some parts \<Rightarrow> parts
      | None \<Rightarrow> [0])"

text \<open>
  The loop \<^verbatim>\<open>for i in range(max_len)\<close> of \<^verbatim>\<open>compare_versions\<close>, over the two padded
  lists, returning at the first index where they differ.
\<close>

fun compare_loop :: "int list \<Rightarrow> int list \<Rightarrow> nat list \<Rightarrow> int" where
  "compare_loop v1_parts v2_parts [] = 0"
| "compare_loop v1_parts v2_parts (i # is) =
     (if v1_parts ! i > v2_parts ! i then 1
      else if v1_parts ! i < v2_parts ! i then - 1
      else compare_loop v1_parts v2_parts is)"

definition compare_parts :: "int list \<Rightarrow> int list \<Rightarrow> int" where
  "compare_parts p1 p2 =
     (let max_len = max (length p1) (length p2);
          v1_parts = p1 @ replicate (max_len - length p1) 0;
          v2_parts = p2 @ replicate (max_len - length p2) 0
      in compare_loop v1_parts v2_parts [0..<max_len])"

definition compare_versions :: "nat \<Rightarrow> string \<Rightarrow> string \<Rightarrow> int" where
  "compare_versions max_str_digits version1 version2 =
     compare_parts (parse_version max_str_digits version1)
                   (parse_version max_str_digits version2)"

text \<open>
  The specification's reading of a version: a text in which groups of digits stand
  between other characters, each group a decimal numeral, possibly with leading
  zeros; the components of the version are the numbers the groups denote.  A group is
  given as \<open>(z, n, sep)\<close>: \<open>z\<close> leading zeros, the numeral of \<open>n\<close>, and the text \<open>sep\<close>
  up to the next group.  Two versions are compared by padding the shorter list of
  components with zeros to the length of the longer one and comparing component by
  component.
\<close>

definition digit_char :: "nat \<Rightarrow> char" where
  "digit_char d = ''0123456789'' ! d"

fun decimal :: "nat \<Rightarrow> string" where
  "decimal n = (if n < 10 then [digit_char n] else decimal (n div 10) @ [digit_char (n mod 10)])"

definition group_text :: "nat \<times> nat \<times> string \<Rightarrow> string" where
  "group_text g = (case g of (z, n, sep) \<Rightarrow> replicate z (CHR ''0'') @ decimal n @ sep)"

definition group_value :: "nat \<times> nat \<times> string \<Rightarrow> nat" where
  "group_value g = (case g of (z, n, sep) \<Rightarrow> n)"

definition group_digits :: "nat \<times> nat \<times> string \<Rightarrow> nat" where
  "group_digits g = (case g of (z, n, sep) \<Rightarrow> z + length (decimal n))"

definition version_text :: "string \<Rightarrow> (nat \<times> nat \<times> string) list \<Rightarrow> string" where
  "version_text pre groups = pre @ concat (map group_text groups)"

definition no_digit :: "string \<Rightarrow> bool" where
  "no_digit s = list_all (\<lambda>c. \<not> is_digit c) s"

fun well_separated :: "(nat \<times> nat \<times> string) list \<Rightarrow> bool" where
  "well_separated [] = True"
| "well_separated [g] = no_digit (snd (snd g))"
| "well_separated (g # g' # gs) =
     (no_digit (snd (snd g)) \<and> snd (snd g) \<noteq> [] \<and> well_separated (g' # gs))"

text \<open>A group is converted when its number of digits is within the limit of the
  interpreter.\<close>

definition convertible :: "nat \<Rightarrow> (nat \<times> nat \<times> string) list \<Rightarrow> bool" where
  "convertible max_str_digits groups =
     list_all (\<lambda>g. group_digits g \<le> str_digits_check_threshold \<or> max_str_digits = 0
                    \<or> group_digits g \<le> max_str_digits) groups"

definition zero_pad :: "nat \<Rightarrow> int list \<Rightarrow> int list" where
  "zero_pad n xs = xs @ replicate (n - length xs) 0"

fun componentwise :: "int list \<Rightarrow> int list \<Rightarrow> int" where
  "componentwise (x # xs) (y # ys) =
     (if x > y then 1 else if x < y then - 1 else componentwise xs ys)"
| "componentwise _ _ = 0"

definition compare_components :: "nat list \<Rightarrow> nat list \<Rightarrow> int" where
  "compare_components ms ns =
     (let n = max (length ms) (length ns)
      in componentwise (zero_pad n (map int ms)) (zero_pad n (map int ns)))"

text \<open>Auxiliary notions for the proofs: the digits of a group; the components as an
  infinite sequence that is zero beyond the end of the list; and the comparison of \<open>d\<close>
  components of two sequences from index \<open>k\<close> on.\<close>

definition group_numeral :: "nat \<times> nat \<times> string \<Rightarrow> string" where
  "group_numeral g = (case g of (z, n, sep) \<Rightarrow> replicate z (CHR ''0'') @ decimal n)"

definition nth0 :: "int list \<Rightarrow> nat \<Rightarrow> int" where
  "nth0 xs i = (if i < length xs then xs ! i else 0)"

fun cmpf :: "(nat \<Rightarrow> int) \<Rightarrow> (nat \<Rightarrow> int) \<Rightarrow> nat \<Rightarrow> nat \<Rightarrow> int" where
  "cmpf f g k 0 = 0"
| "cmpf f g k (Suc d) =
     (if f k > g k then 1 else if f k < g k then - 1 else cmpf f g (Suc k) d)"

section \<open>Plugin metadata and the registry (\<^verbatim>\<open>PLUGIN_REGISTRY\<close>)\<close>

text \<open>
  A dependency declaration \<^verbatim>\<open>{"name": ..., "min_version": ..., "max_version": ...}\<close>;
  the two bounds are optional keys.
\<close>

record dependency =
  dep_name :: string
  min_version :: "string option"
  max_version :: "string option"

text \<open>
  A plugin's metadata dictionary once it has passed the required-field check of
  \<^verbatim>\<open>_scan_plugins_metadata\<close>: the five required keys are present, \<^verbatim>\<open>version\<close> and
  \<^verbatim>\<open>dependencies\<close> have been given their defaults and \<^verbatim>\<open>plugin_path\<close> has been
  added.  \<^verbatim>\<open>is_at_required\<close> stays optional (it is read with
  \<^verbatim>\<open>plugin.get("is_at_required", False)\<close>).  A registry entry is this dictionary
  extended by \<^verbatim>\<open>handler_func\<close> and \<^verbatim>\<open>core_module\<close>; the bound handler is code
  of the plugin and is represented by the enclosing entry itself.
\<close>

record plugin_meta =
  name :: string
  version :: string
  commands :: "string list"
  handler :: string
  chat_type :: "string list"
  permission :: string
  is_at_required :: "bool option"
  dependencies :: "dependency list"
  plugin_path :: string

subsection \<open>Command matching (\<^verbatim>\<open>PluginManager.get_matched_plugin\<close>)\<close>

text \<open>
  The loop over \<^verbatim>\<open>PLUGIN_REGISTRY\<close>, with its three \<^verbatim>\<open>continue\<close> filters and the
  command test, in the order of the source.  \<open>master_qq\<close> is \<^verbatim>\<open>str(MASTER_QQ)\<close>, the
  configured master id; \<open>sender_id\<close> is already a string.
\<close>

fun get_matched_plugin ::
  "string \<Rightarrow> plugin_meta list \<Rightarrow> string \<Rightarrow> string \<Rightarrow> string \<Rightarrow> bool \<Rightarrow> plugin_meta option" where
  "get_matched_plugin master_qq [] raw_msg ctype sender_id is_at_bot = None"
| "get_matched_plugin master_qq (plugin # registry) raw_msg ctype sender_id is_at_bot =
     (if ctype \<notin> set (chat_type plugin)
        then get_matched_plugin master_qq registry raw_msg ctype sender_id is_at_bot
      else if permission plugin = ''master'' \<and> sender_id \<noteq> master_qq
        then get_matched_plugin master_qq registry raw_msg ctype sender_id is_at_bot
      else if ctype = ''group''
              \<and> (case is_at_required plugin of None \<Rightarrow> False | Some b \<Rightarrow> b) \<and> \<not> is_at_bot
        then get_matched_plugin master_qq registry raw_msg ctype sender_id is_at_bot
      else if [cmd \<leftarrow> commands plugin. str_contains cmd raw_msg] \<noteq> []
        then Some plugin
      else get_matched_plugin master_qq registry raw_msg ctype sender_id is_at_bot)"

text \<open>
  The four filters in the words of the specification: the chat scope is one of the
  plugin's scopes; a master-only plugin needs the master as caller; in a group, a plugin
  that requires a mention needs the mention; some trigger string lies somewhere inside
  the raw text.
\<close>

definition passes_filters :: "string \<Rightarrow> string \<Rightarrow> string \<Rightarrow> string \<Rightarrow> bool \<Rightarrow> plugin_meta \<Rightarrow> bool" where
  "passes_filters master_qq raw_msg ctype sender_id is_at_bot plugin \<longleftrightarrow>
     ctype \<in> set (chat_type plugin) \<and>
     (permission plugin = ''master'' \<longrightarrow> sender_id = master_qq) \<and>
     (ctype = ''group'' \<and> is_at_required plugin = Some True \<longrightarrow> is_at_bot) \<and>
     (\<exists>cmd \<in> set (commands plugin). \<exists>before after. raw_msg = before @ cmd @ after)"

text \<open>Two registry entries for worked examples: a plugin open to everyone and a
  master-only plugin, both triggered by \<open>foo\<close> in private and group chats.\<close>

definition example_plugin_A :: plugin_meta where
  "example_plugin_A = \<lparr>name = ''A'', version = ''1.0.0'', commands = [''foo''], handler = ''handle_a'',
     chat_type = [''private'', ''group''], permission = ''all'', is_at_required = Some False,
     dependencies = [], plugin_path = ''./plugins/A''\<rparr>"

definition example_plugin_M :: plugin_meta where
  "example_plugin_M = \<lparr>name = ''M'', version = ''1.0.0'', commands = [''foo''], handler = ''handle_m'',
     chat_type = [''private'', ''group''], permission = ''master'', is_at_required = None,
     dependencies = [], plugin_path = ''./plugins/M''\<rparr>"

section \<open>The dependency graph and cycle detection\<close>

text \<open>
  \<^verbatim>\<open>DEPENDENCY_GRAPH\<close> is a dictionary from plugin names to lists of dependency
  names; a Python dictionary keeps its keys in insertion order, so it is an
  association list here, read with \<^const>\<open>map_of\<close>.
\<close>

type_synonym graph = "(string \<times> string list) list"

text \<open>
  The lines of the error log that the properties below speak about: the report of a
  cycle, carrying the rendered path, and the report that initialisation failed
  because of a cycle.
\<close>

datatype log_line = CircularDependency string | InitFailedCircular

text \<open>
  The two mutable arguments of \<^verbatim>\<open>check_circular_dependency\<close>, the set \<^verbatim>\<open>visited\<close> and
  the list \<^verbatim>\<open>path\<close>, together with the error log.
\<close>

record dfs_state =
  visited :: "string set"
  path :: "string list"
  errors :: "log_line list"

text \<open>
  \<^verbatim>\<open>check_circular_dependency(plugin_name, visited, path)\<close> and its loop over
  \<^verbatim>\<open>DEPENDENCY_GRAPH[plugin_name]\<close>.  The first argument bounds the depth of the
  recursion: a call at depth zero has no value (\<open>None\<close>).  Below it is shown that a
  depth of one more than the number of keys of the graph is never exhausted.  The
  recursion limit of the interpreter is not part of the model.
\<close>

fun check_circular_dependency ::
    "nat \<Rightarrow> graph \<Rightarrow> string \<Rightarrow> dfs_state \<Rightarrow> (bool \<times> dfs_state) option"
  and check_dependencies ::
    "nat \<Rightarrow> graph \<Rightarrow> string list \<Rightarrow> dfs_state \<Rightarrow> (bool \<times> dfs_state) option" where
  "check_circular_dependency 0 g plugin_name st = None"
| "check_circular_dependency (Suc depth) g plugin_name st =
     (let st1 = st\<lparr>visited := insert plugin_name (visited st),
                   path := path st @ [plugin_name]\<rparr>
      in case map_of g plugin_name of
           None \<Rightarrow> Some (False, st1\<lparr>path := butlast (path st1)\<rparr>)
         | Some deps \<Rightarrow>
             (case check_dependencies depth g deps st1 of
                None \<Rightarrow> None
              | Some (found, st2) \<Rightarrow>
                  if found then Some (True, st2)
                  else Some (False, st2\<lparr>path := butlast (path st2)\<rparr>)))"
| "check_dependencies depth g [] st = Some (False, st)"
| "check_dependencies depth g (dependency # rest) st =
     (if dependency \<notin> visited st then
        (case check_circular_dependency depth g dependency st of
           None \<Rightarrow> None
         | Some (found, st') \<Rightarrow>
             if found then Some (True, st') else check_dependencies depth g rest st')
      else if dependency \<in> set (path st) then
        (let cycle_start_index = index_of dependency (path st);
             cycle = join '' -> '' (drop cycle_start_index (path st)) @ '' -> '' @ dependency
         in Some (True, st\<lparr>errors := errors st @ [CircularDependency cycle]\<rparr>))
      else check_dependencies depth g rest st)"

text \<open>
  The loop of \<^verbatim>\<open>init\<close> over the keys of the graph.  The global set \<^verbatim>\<open>VISITED\<close> is
  cleared before the loop and never written, so the test
  \<^verbatim>\<open>plugin_name not in VISITED\<close> always succeeds; every key is checked with a fresh
  \<^verbatim>\<open>set()\<close> and a fresh \<^verbatim>\<open>[]\<close>.  The result tells whether a cycle was found and gives
  the error log.
\<close>

fun detect_cycles :: "graph \<Rightarrow> string list \<Rightarrow> log_line list \<Rightarrow> (bool \<times> log_line list) option" where
  "detect_cycles g [] lg = Some (False, lg)"
| "detect_cycles g (plugin_name # keys) lg =
     (case check_circular_dependency (Suc (length g)) g plugin_name
             \<lparr>visited = {}, path = [], errors = lg\<rparr> of
        None \<Rightarrow> None
      | Some (found, st) \<Rightarrow>
          if found then Some (True, errors st @ [InitFailedCircular])
          else detect_cycles g keys (errors st))"

text \<open>
  Cycles of a graph, in the words of the specification: \<open>edge g a b\<close> says that \<open>a\<close>
  declares the dependency \<open>b\<close>; a list of names is a chain when each name declares
  the next one; a cycle is a chain of at least two names whose first and last names
  are equal, and it is simple when no name but the first occurs twice.  The rendered
  form of a cycle puts arrows between the names.
\<close>

definition edge :: "graph \<Rightarrow> string \<Rightarrow> string \<Rightarrow> bool" where
  "edge g a b = (case map_of g a of None \<Rightarrow> False | Some deps \<Rightarrow> b \<in> set deps)"

fun chain :: "graph \<Rightarrow> string list \<Rightarrow> bool" where
  "chain g [] = True"
| "chain g [a] = True"
| "chain g (a # b # rest) = (edge g a b \<and> chain g (b # rest))"

definition is_cycle :: "graph \<Rightarrow> string list \<Rightarrow> bool" where
  "is_cycle g c \<longleftrightarrow> 2 \<le> length c \<and> hd c = last c \<and> chain g c"

definition is_simple_cycle :: "graph \<Rightarrow> string list \<Rightarrow> bool" where
  "is_simple_cycle g c \<longleftrightarrow> is_cycle g c \<and> distinct (butlast c)"

definition render_cycle :: "string list \<Rightarrow> string" where
  "render_cycle c = join '' -> '' c"

text \<open>Auxiliary notions for the proofs: the edge relation, and the names that have
  been visited and left again.\<close>

definition edges :: "graph \<Rightarrow> (string \<times> string) set" where
  "edges g = {(a, b). edge g a b}"

definition finished :: "dfs_state \<Rightarrow> string set" where
  "finished st = visited st - set (path st)"

definition closed_acyclic :: "graph \<Rightarrow> string set \<Rightarrow> bool" where
  "closed_acyclic g S \<longleftrightarrow>
     (\<forall>a \<in> S. \<forall>b. edge g a b \<longrightarrow> b \<in> S) \<and> (\<forall>a \<in> S. (a, a) \<notin> (edges g)\<^sup>+)"

text \<open>A graph for worked examples: \<open>A\<close> depends on \<open>B\<close>, \<open>B\<close> on \<open>C\<close>, \<open>C\<close> on \<open>A\<close>,
  and \<open>D\<close> on nothing.\<close>

definition example_cyclic_graph :: graph where
  "example_cyclic_graph = [(''A'', [''B'']), (''B'', [''C'']), (''C'', [''A'']), (''D'', [])]"

section \<open>Discovering and loading plugins (\<^verbatim>\<open>PluginManager.init\<close>)\<close>

subsection \<open>The plugin directory\<close>

text \<open>
  The plugin code that loading can execute: the \<^verbatim>\<open>__init__.py\<close> of a plugin
  directory, and its core module \<^verbatim>\<open><name>.py\<close>.  The manager keeps a trace of the
  units it has executed.
\<close>

datatype code_unit = InitPy string | CorePy string

text \<open>
  A metadata dictionary as a plugin provides it (\<^verbatim>\<open>PLUGIN_META\<close>, or the object in
  \<^verbatim>\<open>adapter.json\<close>): every key may be absent.  For \<^verbatim>\<open>adapter.json\<close>, \<open>raw_commands\<close>
  holds the list, or the keys when the value is a dictionary.  The keys
  \<^verbatim>\<open>description\<close>, \<^verbatim>\<open>author\<close> and \<^verbatim>\<open>config\<close> play no role in loading and are left
  out.
\<close>

record raw_meta =
  raw_name :: "string option"
  raw_version :: "string option"
  raw_commands :: "string list option"
  raw_handler :: "string option"
  raw_chat_type :: "string list option"
  raw_permission :: "string option"
  raw_is_at_required :: "bool option"
  raw_dependencies :: "dependency list option"

text \<open>
  What executing \<^verbatim>\<open>__init__.py\<close> does (it raises an exception, or yields a module
  with or without \<^verbatim>\<open>PLUGIN_META\<close>), what \<^verbatim>\<open>adapter.json\<close> contains (text that is not
  JSON, or an object), and what executing the core module does (it raises, or yields
  a module whose attributes are callable or not).  Exceptions raised by plugin code
  while loading are instances of \<^verbatim>\<open>Exception\<close>.
\<close>

datatype init_module = InitRaises | InitModule "raw_meta option"

datatype adapter_file = AdapterMalformed | AdapterData raw_meta

datatype core_module = CoreRaises | CoreModule "(string \<times> bool) list"

text \<open>One entry of \<^verbatim>\<open>os.listdir(plugin_dir)\<close>; the three files are \<open>None\<close> when the
  directory does not contain them.\<close>

record plugin_dir =
  dir_name :: string
  is_dir :: bool
  adapter_json :: "adapter_file option"
  init_py :: "init_module option"
  core_py :: "core_module option"

text \<open>\<^verbatim>\<open>os.path.join\<close> and \<^verbatim>\<open>os.path.dirname\<close> for POSIX paths.\<close>

definition path_join :: "string \<Rightarrow> string \<Rightarrow> string" where
  "path_join a b =
     (if take 1 b = ''/'' then b
      else if a = [] \<or> last a = CHR ''/'' then a @ b
      else a @ ''/'' @ b)"

definition dirname :: "string \<Rightarrow> string" where
  "dirname p =
     (let head = rev (dropWhile (\<lambda>c. c \<noteq> CHR ''/'') (rev p))
      in if head \<noteq> [] \<and> (\<exists>c \<in> set head. c \<noteq> CHR ''/'')
         then rev (dropWhile (\<lambda>c. c = CHR ''/'') (rev head))
         else head)"

subsection \<open>The manager\<close>

text \<open>
  The module-level globals \<^verbatim>\<open>PLUGIN_REGISTRY\<close>, \<^verbatim>\<open>LOADED_PLUGIN_VERSIONS\<close> and
  \<^verbatim>\<open>DEPENDENCY_GRAPH\<close>, the flag \<^verbatim>\<open>_initialized\<close> of the singleton, the error log and the
  trace of executed plugin code.
\<close>

record plugin_manager =
  PLUGIN_REGISTRY :: "plugin_meta list"
  LOADED_PLUGIN_VERSIONS :: "(string \<times> string) list"
  DEPENDENCY_GRAPH :: graph
  initialized :: bool
  error_log :: "log_line list"
  executed :: "code_unit list"

subsection \<open>Phase 1: \<^verbatim>\<open>_scan_plugins_metadata\<close>\<close>

text \<open>
  The names bound in the module \<^verbatim>\<open>core/plugin_manager.py\<close>: its imports (lines 1 to
  7) and its own definitions.  The module does not import \<^verbatim>\<open>json\<close>, so evaluating
  \<^verbatim>\<open>json.load(f)\<close> raises \<^verbatim>\<open>NameError\<close>.
\<close>

definition module_globals :: "string list" where
  "module_globals =
     [''os'', ''importlib'', ''Dict'', ''List'', ''Callable'', ''Optional'', ''Set'', ''Tuple'',
      ''re'', ''logger'', ''ROBOT_QQ'', ''MASTER_QQ'', ''PLUGIN_REGISTRY'',
      ''LOADED_PLUGIN_VERSIONS'', ''DEPENDENCY_GRAPH'', ''VISITED'', ''PluginManager'',
      ''plugin_manager'']"

definition json_load :: "adapter_file \<Rightarrow> py_exception + raw_meta" where
  "json_load f =
     (if ''json'' \<notin> set module_globals then Inl (Exception ''NameError'')
      else case f of
        AdapterMalformed \<Rightarrow> Inl (Exception ''JSONDecodeError'')
      | AdapterData adapter_data \<Rightarrow> Inr adapter_data)"

text \<open>\<^verbatim>\<open>_convert_adapter_to_meta\<close>, with its defaults.\<close>

definition convert_adapter_to_meta :: "raw_meta \<Rightarrow> string \<Rightarrow> raw_meta" where
  "convert_adapter_to_meta adapter_data plugin_name =
     \<lparr>raw_name = Some (case raw_name adapter_data of None \<Rightarrow> plugin_name | Some n \<Rightarrow> n),
      raw_version = Some (case raw_version adapter_data of None \<Rightarrow> ''1.0.0'' | Some v \<Rightarrow> v),
      raw_commands = Some (case raw_commands adapter_data of None \<Rightarrow> [] | Some c \<Rightarrow> c),
      raw_handler =
        Some (case raw_handler adapter_data of
                Some h \<Rightarrow> h
              | None \<Rightarrow> ''handle_'' @ map (\<lambda>c. if c = CHR ''-'' then CHR ''_'' else c)
                                        (remove_all ''_plugin'' 0 plugin_name)),
      raw_chat_type =
        Some (case raw_chat_type adapter_data of None \<Rightarrow> [''private'', ''group''] | Some t \<Rightarrow> t),
      raw_permission = Some (case raw_permission adapter_data of None \<Rightarrow> ''all'' | Some p \<Rightarrow> p),
      raw_is_at_required =
        Some (case raw_is_at_required adapter_data of None \<Rightarrow> False | Some b \<Rightarrow> b),
      raw_dependencies = raw_dependencies adapter_data\<rparr>"

text \<open>
  The first half of the loop body: \<^verbatim>\<open>adapter.json\<close> is preferred; when it is absent
  or reading it fails, \<^verbatim>\<open>__init__.py\<close> is executed and its \<^verbatim>\<open>PLUGIN_META\<close> is taken.
  The result is the metadata (if any) and the plugin code that was executed.
\<close>

definition read_metadata :: "plugin_dir \<Rightarrow> raw_meta option \<times> code_unit list" where
  "read_metadata entry =
     (let from_adapter =
            (case adapter_json entry of
               None \<Rightarrow> None
             | Some f \<Rightarrow>
                 (case json_load f of
                    Inl e \<Rightarrow> None
                  | Inr adapter_data \<Rightarrow>
                      Some (convert_adapter_to_meta adapter_data (dir_name entry))))
      in case from_adapter of
           Some plugin_meta \<Rightarrow> (Some plugin_meta, [])
         | None \<Rightarrow>
             (case init_py entry of
                None \<Rightarrow> (None, [])
              | Some InitRaises \<Rightarrow> (None, [InitPy (dir_name entry)])
              | Some (InitModule None) \<Rightarrow> (None, [InitPy (dir_name entry)])
              | Some (InitModule (Some plugin_meta)) \<Rightarrow>
                  (Some plugin_meta, [InitPy (dir_name entry)])))"

text \<open>
  The second half: the five required keys must be present; \<^verbatim>\<open>version\<close> and
  \<^verbatim>\<open>dependencies\<close> get their defaults and \<^verbatim>\<open>plugin_path\<close> is set.
\<close>

definition complete_metadata :: "string \<Rightarrow> string \<Rightarrow> raw_meta \<Rightarrow> plugin_meta option" where
  "complete_metadata plugins_directory plugin_name m =
     (case (raw_name m, raw_commands m, raw_handler m, raw_chat_type m, raw_permission m) of
        (Some n, Some cmds, Some h, Some scopes, Some perm) \<Rightarrow>
          Some \<lparr>name = n,
                version = (case raw_version m of None \<Rightarrow> ''1.0.0'' | Some v \<Rightarrow> v),
                commands = cmds,
                handler = h,
                chat_type = scopes,
                permission = perm,
                is_at_required = raw_is_at_required m,
                dependencies = (case raw_dependencies m of None \<Rightarrow> [] | Some ds \<Rightarrow> ds),
                plugin_path = path_join plugins_directory plugin_name\<rparr>
      | _ \<Rightarrow> None)"

text \<open>
  The loop over the entries of the plugin directory.  The state is the dictionary
  \<^verbatim>\<open>plugins_meta\<close> and the manager.  An entry that is not a directory, has neither
  file, yields no metadata or lacks a required key is skipped.
\<close>

fun scan_entries ::
  "string \<Rightarrow> plugin_dir list \<Rightarrow> (string \<times> plugin_meta) list \<times> plugin_manager
   \<Rightarrow> (string \<times> plugin_meta) list \<times> plugin_manager" where
  "scan_entries plugins_directory [] s = s"
| "scan_entries plugins_directory (entry # rest) (plugins_meta, pm) =
     (if \<not> is_dir entry then scan_entries plugins_directory rest (plugins_meta, pm)
      else if init_py entry = None \<and> adapter_json entry = None
        then scan_entries plugins_directory rest (plugins_meta, pm)
      else
        let (raw, ran) = read_metadata entry;
            pm1 = pm\<lparr>executed := executed pm @ ran\<rparr>
        in case raw of
             None \<Rightarrow> scan_entries plugins_directory rest (plugins_meta, pm1)
           | Some m \<Rightarrow>
               (case complete_metadata plugins_directory (dir_name entry) m of
                  None \<Rightarrow> scan_entries plugins_directory rest (plugins_meta, pm1)
                | Some plugin_meta \<Rightarrow>
                    scan_entries plugins_directory rest
                      (dict_set plugins_meta (dir_name entry) plugin_meta,
                       pm1\<lparr>DEPENDENCY_GRAPH :=
                             dict_set (DEPENDENCY_GRAPH pm1) (dir_name entry)
                               (map dep_name (dependencies plugin_meta))\<rparr>)))"

text \<open>The file system gives the listing of a directory, or \<open>None\<close> when the
  directory does not exist.\<close>

type_synonym file_system = "string \<Rightarrow> plugin_dir list option"

definition scan_plugins_metadata ::
  "file_system \<Rightarrow> string \<Rightarrow> plugin_manager \<Rightarrow> (string \<times> plugin_meta) list \<times> plugin_manager" where
  "scan_plugins_metadata fs plugins_directory pm =
     (case fs plugins_directory of
        None \<Rightarrow> ([], pm)
      | Some entries \<Rightarrow> scan_entries plugins_directory entries ([], pm))"

subsection \<open>Phase 2: \<^verbatim>\<open>_load_plugins_by_dependency\<close>\<close>

text \<open>\<^verbatim>\<open>check_plugin_dependencies\<close>, without the text of the error message; the
  versions are compared under the default limit of the interpreter on the digits of a
  conversion.\<close>

fun check_plugin_dependencies :: "(string \<times> string) list \<Rightarrow> dependency list \<Rightarrow> bool" where
  "check_plugin_dependencies versions [] = True"
| "check_plugin_dependencies versions (dep # rest) =
     (case map_of versions (dep_name dep) of
        None \<Rightarrow> False
      | Some loaded_version \<Rightarrow>
          if compare_versions default_max_str_digits loaded_version
               (case min_version dep of None \<Rightarrow> ''0.0.0'' | Some v \<Rightarrow> v) < 0 then False
          else if (case max_version dep of
                     None \<Rightarrow> False
                   | Some mv \<Rightarrow> mv \<noteq> [] \<and> compare_versions default_max_str_digits loaded_version mv > 0) then False
          else check_plugin_dependencies versions rest)"

text \<open>
  The part of \<^verbatim>\<open>load_plugin\<close> inside its \<^verbatim>\<open>try\<close>: the core file must exist, the
  module is executed, the handler must be a callable attribute; then the plugin is
  registered.
\<close>

definition load_core ::
  "plugin_dir list \<Rightarrow> string \<Rightarrow> plugin_meta \<Rightarrow> string set \<times> plugin_manager
   \<Rightarrow> bool \<times> string set \<times> plugin_manager" where
  "load_core entries plugin_name plugin_meta s =
     (case s of (loaded, pm) \<Rightarrow>
        (case (case find (\<lambda>e. dir_name e = plugin_name) entries of
                 None \<Rightarrow> None | Some e \<Rightarrow> core_py e) of
           None \<Rightarrow> (False, loaded, pm)
         | Some CoreRaises \<Rightarrow>
             (False, loaded, pm\<lparr>executed := executed pm @ [CorePy plugin_name]\<rparr>)
         | Some (CoreModule attributes) \<Rightarrow>
             (let pm1 = pm\<lparr>executed := executed pm @ [CorePy plugin_name]\<rparr>
              in case map_of attributes (handler plugin_meta) of
                   None \<Rightarrow> (False, loaded, pm1)
                 | Some is_callable \<Rightarrow>
                     if \<not> is_callable then (False, loaded, pm1)
                     else (True, insert plugin_name loaded,
                           pm1\<lparr>PLUGIN_REGISTRY := PLUGIN_REGISTRY pm1 @ [plugin_meta],
                               LOADED_PLUGIN_VERSIONS :=
                                 dict_set (LOADED_PLUGIN_VERSIONS pm1) plugin_name
                                   (version plugin_meta)\<rparr>))))"

text \<open>
  \<^verbatim>\<open>load_plugin\<close> and its loop over the dependencies.  As for the cycle check, the
  first argument bounds the depth of the recursion; \<^verbatim>\<open>init\<close> calls it on a graph
  without cycles, with a depth that is shown below never to be exhausted.
\<close>

fun load_plugin ::
    "nat \<Rightarrow> (string \<times> plugin_meta) list \<Rightarrow> plugin_dir list \<Rightarrow> string
     \<Rightarrow> string set \<times> plugin_manager \<Rightarrow> (bool \<times> string set \<times> plugin_manager) option"
  and load_dependencies ::
    "nat \<Rightarrow> (string \<times> plugin_meta) list \<Rightarrow> plugin_dir list \<Rightarrow> dependency list
     \<Rightarrow> string set \<times> plugin_manager \<Rightarrow> (bool \<times> string set \<times> plugin_manager) option" where
  "load_plugin 0 plugins_meta entries plugin_name s = None"
| "load_plugin (Suc depth) plugins_meta entries plugin_name s =
     (if plugin_name \<in> fst s then Some (True, s)
      else case map_of plugins_meta plugin_name of
        None \<Rightarrow> Some (False, s)
      | Some plugin_meta \<Rightarrow>
          (case load_dependencies depth plugins_meta entries (dependencies plugin_meta) s of
             None \<Rightarrow> None
           | Some (ok, s') \<Rightarrow>
               if \<not> ok then Some (False, s')
               else if \<not> check_plugin_dependencies (LOADED_PLUGIN_VERSIONS (snd s'))
                          (dependencies plugin_meta)
                 then Some (False, s')
               else Some (load_core entries plugin_name plugin_meta s')))"
| "load_dependencies depth plugins_meta entries [] s = Some (True, s)"
| "load_dependencies depth plugins_meta entries (dep # rest) s =
     (if dep_name dep \<notin> fst s then
        (case load_plugin depth plugins_meta entries (dep_name dep) s of
           None \<Rightarrow> None
         | Some (ok, s') \<Rightarrow>
             if \<not> ok then Some (False, s')
             else load_dependencies depth plugins_meta entries rest s')
      else load_dependencies depth plugins_meta entries rest s)"

text \<open>The final loop \<^verbatim>\<open>for plugin_name in plugins_meta\<close>.\<close>

fun load_all ::
  "nat \<Rightarrow> (string \<times> plugin_meta) list \<Rightarrow> plugin_dir list \<Rightarrow> string list
   \<Rightarrow> string set \<times> plugin_manager \<Rightarrow> (string set \<times> plugin_manager) option" where
  "load_all depth plugins_meta entries [] s = Some s"
| "load_all depth plugins_meta entries (plugin_name # rest) s =
     (if plugin_name \<notin> fst s then
        (case load_plugin depth plugins_meta entries plugin_name s of
           None \<Rightarrow> None
         | Some (ok, s') \<Rightarrow> load_all depth plugins_meta entries rest s')
      else load_all depth plugins_meta entries rest s)"

subsection \<open>\<^verbatim>\<open>init\<close>\<close>

text \<open>
  \<^verbatim>\<open>init(plugin_dir)\<close>: nothing when the manager is initialised already; otherwise the
  three globals are cleared, phase 1 runs, the cycle check runs over the keys of the
  dependency graph, and only when it finds no cycle phase 2 runs and the manager
  becomes initialised.  When a cycle is found the function logs the failure and
  returns.
\<close>

definition init :: "file_system \<Rightarrow> string \<Rightarrow> plugin_manager \<Rightarrow> plugin_manager option" where
  "init fs plugins_directory pm =
     (if initialized pm then Some pm
      else
        let pm0 = pm\<lparr>PLUGIN_REGISTRY := [], LOADED_PLUGIN_VERSIONS := [], DEPENDENCY_GRAPH := []\<rparr>;
            (plugins_meta, pm1) = scan_plugins_metadata fs plugins_directory pm0;
            entries = (case fs plugins_directory of None \<Rightarrow> [] | Some es \<Rightarrow> es)
        in case detect_cycles (DEPENDENCY_GRAPH pm1) (map fst (DEPENDENCY_GRAPH pm1))
                  (error_log pm1) of
             None \<Rightarrow> None
           | Some (found, lg) \<Rightarrow>
               if found then Some (pm1\<lparr>error_log := lg\<rparr>)
               else
                 (case load_all (Suc (length plugins_meta)) plugins_meta entries
                         (map fst plugins_meta) ({}, pm1\<lparr>error_log := lg\<rparr>) of
                    None \<Rightarrow> None
                  | Some (loaded, pm2) \<Rightarrow> Some (pm2\<lparr>initialized := True\<rparr>)))"

subsection \<open>\<^verbatim>\<open>reload_plugin\<close>\<close>

text \<open>
  The body of \<^verbatim>\<open>reload_plugin\<close> assigns to the name \<^verbatim>\<open>PLUGIN_REGISTRY\<close> (in its
  \<^verbatim>\<open>try\<close> block) and has no \<^verbatim>\<open>global\<close> declaration, so in this function the name is
  a local variable, unbound until that assignment runs.  \<open>local_PLUGIN_REGISTRY\<close> is
  that variable at the start of the call.  The first statement, the loop
  \<^verbatim>\<open>for plugin in PLUGIN_REGISTRY\<close>, reads it; reading an unbound local raises
  \<^verbatim>\<open>UnboundLocalError\<close>, and this loop stands before the \<^verbatim>\<open>try\<close>.
\<close>

definition reload_plugin ::
  "file_system \<Rightarrow> plugin_manager \<Rightarrow> string \<Rightarrow> (bool outcome \<times> plugin_manager) option" where
  "reload_plugin fs pm plugin_name =
     (let local_PLUGIN_REGISTRY = (None :: plugin_meta list option)
      in case local_PLUGIN_REGISTRY of
           None \<Rightarrow> Some (Raised (Exception ''UnboundLocalError''), pm)
         | Some reg \<Rightarrow>
             (case find (\<lambda>plugin. name plugin = plugin_name) reg of
                None \<Rightarrow> Some (Returned False, pm)
              | Some plugin \<Rightarrow>
                  if plugin_path plugin = [] then Some (Returned False, pm)
                  else
                    let pm1 = pm\<lparr>LOADED_PLUGIN_VERSIONS :=
                                   [kv \<leftarrow> LOADED_PLUGIN_VERSIONS pm. fst kv \<noteq> plugin_name],
                                 initialized := False\<rparr>
                    in (case init fs (dirname (plugin_path plugin)) pm1 of
                          None \<Rightarrow> None
                        | Some pm2 \<Rightarrow> Some (Returned True, pm2))))"

text \<open>Auxiliary notion for the proofs: the dependency graph that belongs to a
  dictionary of metadata.\<close>

definition graph_of :: "(string \<times> plugin_meta) list \<Rightarrow> graph" where
  "graph_of plugins_meta = map (\<lambda>(k, m). (k, map dep_name (dependencies m))) plugins_meta"

text \<open>Auxiliary notion for the proofs: the effect of one entry on the state of the
  scan.\<close>

definition scan_entry ::
  "string \<Rightarrow> plugin_dir \<Rightarrow> (string \<times> plugin_meta) list \<times> plugin_manager
   \<Rightarrow> (string \<times> plugin_meta) list \<times> plugin_manager" where
  "scan_entry plugins_directory entry s = scan_entries plugins_directory [entry] s"


text \<open>
  Directories for worked examples.  \<open>sample_dir n deps\<close> is a plugin directory
  named \<open>n\<close> without \<^verbatim>\<open>adapter.json\<close>, whose \<^verbatim>\<open>__init__.py\<close> declares complete metadata
  with the dependencies \<open>deps\<close>, and whose core module defines the handler.
  \<open>broken_dir\<close> is a directory whose \<^verbatim>\<open>__init__.py\<close> raises when executed.
  \<open>bare_dir\<close> is a directory whose \<^verbatim>\<open>adapter.json\<close> is not valid JSON and whose
  \<^verbatim>\<open>PLUGIN_META\<close> has the five required keys and no other.
  \<open>cyclic_batch\<close> holds \<open>A\<close> and \<open>B\<close>, which depend on each other, and \<open>C\<close>, which
  depends on nothing; \<open>standalone_batch\<close> holds \<open>C\<close> alone.
\<close>

definition sample_meta :: "string \<Rightarrow> string list \<Rightarrow> raw_meta" where
  "sample_meta n deps =
     \<lparr>raw_name = Some n, raw_version = Some ''1.0.0'', raw_commands = Some [''/'' @ n],
      raw_handler = Some ''handle'', raw_chat_type = Some [''private'', ''group''],
      raw_permission = Some ''all'', raw_is_at_required = Some False,
      raw_dependencies =
        Some (map (\<lambda>d. \<lparr>dep_name = d, min_version = None, max_version = None\<rparr>) deps)\<rparr>"

definition sample_dir :: "string \<Rightarrow> string list \<Rightarrow> plugin_dir" where
  "sample_dir n deps =
     \<lparr>dir_name = n, is_dir = True, adapter_json = None,
      init_py = Some (InitModule (Some (sample_meta n deps))),
      core_py = Some (CoreModule [(''handle'', True)])\<rparr>"




definition cyclic_batch :: file_system where
  "cyclic_batch = (\<lambda>d. if d = ''./plugins''
     then Some [sample_dir ''A'' [''B''], sample_dir ''B'' [''A''], sample_dir ''C'' []]
     else None)"

definition standalone_batch :: file_system where
  "standalone_batch = (\<lambda>d. if d = ''./plugins'' then Some [sample_dir ''C'' []] else None)"

definition fresh_manager :: plugin_manager where
  "fresh_manager =
     \<lparr>PLUGIN_REGISTRY = [], LOADED_PLUGIN_VERSIONS = [], DEPENDENCY_GRAPH = [],
      initialized = False, error_log = [], executed = []\<rparr>"

section \<open>The security manager (\<^verbatim>\<open>core/security_manager.py\<close>)\<close>

subsection \<open>\<^verbatim>\<open>InputValidator.is_valid_qq\<close>\<close>

text \<open>
  \<^verbatim>\<open>re.match(r'^[1-9]\d{4,14}$', user_id)\<close>: a first character from \<^verbatim>\<open>1\<close> to \<^verbatim>\<open>9\<close>,
  then between four and fourteen digits, then the end of the string.  Python's \<^verbatim>\<open>$\<close>
  also matches just before a newline that ends the string, which the model keeps.
\<close>

definition is_valid_qq :: "string \<Rightarrow> bool" where
  "is_valid_qq user_id =
     (case user_id of
        [] \<Rightarrow> False
      | c # cs \<Rightarrow>
          c \<in> set ''123456789'' \<and>
          (let ds = takeWhile is_digit cs; rest = dropWhile is_digit cs
           in 4 \<le> length ds \<and> length ds \<le> 14 \<and> (rest = [] \<or> rest = [CHR 0x0A])))"

subsection \<open>\<^verbatim>\<open>RateLimiter\<close>\<close>

text \<open>
  \<^verbatim>\<open>RateLimiter.requests\<close> maps a key to the list of recorded request times.  The
  two thresholds are the entries of \<^verbatim>\<open>RateLimiter.config\<close>.  The two denial texts are
  the constructors of \<open>rate_msg\<close>.
\<close>

record rate_limiter =
  requests :: "string \<rightharpoonup> real list"

definition max_requests_per_minute :: nat where
  "max_requests_per_minute = 60"

definition max_requests_per_hour :: nat where
  "max_requests_per_hour = 1000"

datatype rate_msg = TooManyPerMinute | TooManyPerHour

text \<open>
  \<^verbatim>\<open>RateLimiter.check_rate_limit(key)\<close> with \<open>current_time\<close> the value of
  \<^verbatim>\<open>time.time()\<close>.  The result is the returned pair and the limiter after the call.
\<close>

definition limiter_check_rate_limit ::
  "real \<Rightarrow> rate_limiter \<Rightarrow> string \<Rightarrow> (bool \<times> rate_msg option) \<times> rate_limiter" where
  "limiter_check_rate_limit current_time rl key =
     (let recorded = (case requests rl key of None \<Rightarrow> [] | Some ts \<Rightarrow> ts);
          kept = [t \<leftarrow> recorded. current_time - t < 3600];
          minute_requests = [t \<leftarrow> kept. current_time - t < 60]
      in if length minute_requests \<ge> max_requests_per_minute
           then ((False, Some TooManyPerMinute), rl\<lparr>requests := (requests rl)(key \<mapsto> kept)\<rparr>)
         else if length kept \<ge> max_requests_per_hour
           then ((False, Some TooManyPerHour), rl\<lparr>requests := (requests rl)(key \<mapsto> kept)\<rparr>)
         else ((True, None), rl\<lparr>requests := (requests rl)(key \<mapsto> kept @ [current_time])\<rparr>))"

text \<open>A sequence of calls for one key, one clock reading per call, collecting the
  returned pairs.\<close>

fun run_checks ::
  "rate_limiter \<Rightarrow> string \<Rightarrow> real list \<Rightarrow> (bool \<times> rate_msg option) list \<times> rate_limiter" where
  "run_checks rl key [] = ([], rl)"
| "run_checks rl key (t # ts) =
     (let (r, rl') = limiter_check_rate_limit t rl key;
          (rs, rl'') = run_checks rl' key ts
      in (r # rs, rl''))"

text \<open>Sixty requests, one per second from second 0 to second 59.\<close>

definition sixty_requests :: "real list" where
  "sixty_requests = map real [0..<60]"

subsection \<open>\<^verbatim>\<open>SecurityManager\<close>: roles, permissions, audit log\<close>

datatype user_role = GUEST | SELF | MASTER

record audit_entry =
  audit_user_id :: string
  audit_role :: user_role
  audit_action :: "string option"
  audit_resource :: "string option"
  audit_success :: "bool option"

text \<open>
  The fields of the singleton that the modelled methods read or write.  The
  \<^verbatim>\<open>timestamp\<close> and \<^verbatim>\<open>ip_address\<close> texts of an audit entry are left out.
\<close>

record security_manager =
  limiter :: rate_limiter
  role_permissions :: "user_role \<Rightarrow> string list"
  user_roles :: "string \<rightharpoonup> user_role"
  blacklist :: "string \<rightharpoonup> string option"
  audit_logs :: "audit_entry list"

text \<open>The table built by \<^verbatim>\<open>_initialize\<close>.\<close>

fun initial_role_permissions :: "user_role \<Rightarrow> string list" where
  "initial_role_permissions GUEST = [''basic_query'']"
| "initial_role_permissions SELF = [''basic_query'', ''use_plugins'']"
| "initial_role_permissions MASTER =
     [''basic_query'', ''use_plugins'', ''manage_plugins'', ''system_admin'']"

text \<open>
  \<^verbatim>\<open>get_user_role\<close>; \<open>self_qq\<close> is \<^verbatim>\<open>str(config_manager.get('self_qq', ''))\<close>.
\<close>

definition get_user_role :: "string \<Rightarrow> security_manager \<Rightarrow> string \<Rightarrow> user_role" where
  "get_user_role self_qq sm user_id =
     (case user_roles sm user_id of
        Some r \<Rightarrow> r
      | None \<Rightarrow> if self_qq \<noteq> [] \<and> user_id = self_qq then SELF else GUEST)"

text \<open>
  The four texts that \<^verbatim>\<open>check_permission\<close> returns: invalid user id; blacklisted
  (with the recorded reason, if any); granted (with the role); denied (with the
  permission asked for and the role).
\<close>

datatype perm_msg =
    InvalidUserId
  | Blacklisted "string option"
  | PermissionGranted user_role
  | PermissionDenied string user_role

text \<open>
  \<^verbatim>\<open>check_permission(user_id, permission)\<close>.  The two calls of
  \<^verbatim>\<open>logger_manager.log_with_context\<close> write a log line and swallow every exception of
  their own; they do not change the manager and are left out.
\<close>

definition check_permission ::
  "string \<Rightarrow> security_manager \<Rightarrow> string \<Rightarrow> string \<Rightarrow> bool \<times> perm_msg" where
  "check_permission self_qq sm user_id perm =
     (if \<not> is_valid_qq user_id then (False, InvalidUserId)
      else case blacklist sm user_id of
        Some reason \<Rightarrow> (False, Blacklisted reason)
      | None \<Rightarrow>
          (let role = get_user_role self_qq sm user_id
           in if perm \<in> set (role_permissions sm role)
                then (True, PermissionGranted role)
                else (False, PermissionDenied perm role)))"

text \<open>
  \<^verbatim>\<open>log_audit_event\<close>: append the entry, then keep the newest 1000.
\<close>

definition log_audit_event ::
  "string \<Rightarrow> security_manager \<Rightarrow> string \<Rightarrow> string option \<Rightarrow> string option \<Rightarrow> bool option
   \<Rightarrow> security_manager" where
  "log_audit_event self_qq sm user_id action resource success =
     (let audit_entry = \<lparr>audit_user_id = user_id,
                         audit_role = get_user_role self_qq sm user_id,
                         audit_action = action,
                         audit_resource = resource,
                         audit_success = success\<rparr>;
          logs = audit_logs sm @ [audit_entry]
      in sm\<lparr>audit_logs := (if length logs > 1000 then drop (length logs - 1000) logs else logs)\<rparr>)"

text \<open>\<^verbatim>\<open>SecurityManager.check_rate_limit\<close> delegates to the limiter.\<close>

definition check_rate_limit ::
  "real \<Rightarrow> security_manager \<Rightarrow> string \<Rightarrow> (bool \<times> rate_msg option) \<times> security_manager" where
  "check_rate_limit current_time sm key =
     (let (r, rl') = limiter_check_rate_limit current_time (limiter sm) key
      in (r, sm\<lparr>limiter := rl'\<rparr>))"

section \<open>The execution accountant (\<^verbatim>\<open>core/monitor.py\<close>)\<close>

text \<open>
  One entry of \<^verbatim>\<open>MonitorManager.plugin_stats\<close>.  The accountant keeps counters, not
  single records: one recorded execution is one increment of \<^verbatim>\<open>total_executions\<close>,
  and it is a failed one when \<^verbatim>\<open>successful_executions\<close> stays as it was.
\<close>

record plugin_stat =
  total_executions :: nat
  successful_executions :: nat
  total_time :: real
  avg_execution_time :: real

record monitor_manager =
  plugin_stats :: "string \<rightharpoonup> plugin_stat"

definition record_plugin_execution ::
  "monitor_manager \<Rightarrow> string \<Rightarrow> real \<Rightarrow> bool \<Rightarrow> monitor_manager" where
  "record_plugin_execution mm plugin_name execution_time success =
     (let stats0 = (case plugin_stats mm plugin_name of
                      None \<Rightarrow> \<lparr>total_executions = 0, successful_executions = 0,
                               total_time = 0, avg_execution_time = 0\<rparr>
                    | Some s \<Rightarrow> s);
          stats1 = stats0\<lparr>total_executions := total_executions stats0 + 1\<rparr>;
          stats2 = (if success
                    then stats1\<lparr>successful_executions := successful_executions stats1 + 1\<rparr>
                    else stats1);
          stats3 = stats2\<lparr>total_time := total_time stats2 + execution_time\<rparr>;
          stats4 = stats3\<lparr>avg_execution_time :=
                             total_time stats3 / real (total_executions stats3)\<rparr>
      in mm\<lparr>plugin_stats := (plugin_stats mm)(plugin_name \<mapsto> stats4)\<rparr>)"

section \<open>The dispatch pipeline (\<^verbatim>\<open>core/handler.py\<close>)\<close>

subsection \<open>Requests, responses and the state of the gateway\<close>

text \<open>
  The JSON body of a callback request, as far as \<^verbatim>\<open>callback_base\<close> reads it.  A
  field is \<open>None\<close> when the key is absent; \<open>user_id\<close> and \<open>group_id\<close> hold the
  \<^verbatim>\<open>str(...)\<close> rendering of the value; \<open>message\<close> holds, when the value is a list, the
  pairs \<^verbatim>\<open>(item["type"], str(item["data"]["qq"]))\<close> of its segments; \<open>dumps_length\<close> is
  \<^verbatim>\<open>len(json.dumps(data))\<close> and \<open>string_values\<close> are the values of type \<^verbatim>\<open>str\<close>.
\<close>

record inbound =
  post_type :: "string option"
  message_type :: "string option"
  user_id :: "string option"
  group_id :: "string option"
  raw_message :: "string option"
  message :: "(string \<times> string) list option"
  dumps_length :: nat
  string_values :: "string list"

record request =
  remote_addr :: string
  body :: "inbound option"

text \<open>\<^verbatim>\<open>jsonify({"retcode": r, ...}), status\<close>: the retcode and the HTTP status.\<close>

datatype response = Response int nat

text \<open>The dictionary that \<^verbatim>\<open>callback_base\<close> returns for a message event.\<close>

record parsed_data =
  pd_chat_type :: "string option"
  pd_sender_id :: string
  pd_target_id :: string
  pd_raw_msg :: string
  pd_is_at_bot :: bool
  pd_data :: inbound

text \<open>
  The texts that the core itself hands to \<^verbatim>\<open>send_http_msg\<close>, and one sent message
  (target, text, chat type).  \<^verbatim>\<open>send_http_msg\<close> catches its own failures and returns a
  boolean that the callers below ignore.
\<close>

datatype content = RateLimitNotice | AboutText | AutoReply string

record outbound =
  out_target :: string
  out_content :: content
  out_chat_type :: "string option"

text \<open>The mutable state the pipeline works on.\<close>

record gateway =
  security :: security_manager
  monitor :: monitor_manager
  registry :: "plugin_meta list"
  outbox :: "outbound list"

text \<open>
  What the pipeline takes from its surroundings: configuration values (\<open>robot_qq\<close>,
  \<open>master_qq\<close>, \<open>self_qq\<close>, the keys of \<open>auto_replies\<close>), the two string literals
  \<open>about_command\<close> and \<open>special_command\<close> (Chinese texts), and the behaviour of code
  that lies outside the core:
  \<^item> \<open>validate_command\<close> stands for \<^verbatim>\<open>SecurityManager.validate_command\<close>, which
    returns a boolean and catches its own exceptions;
  \<^item> \<open>run_handler plugin parsed\<close> is the call of the plugin's bound handler:
    \<open>None\<close> when it returns, \<open>Some e\<close> when it raises \<open>e\<close>;
  \<^item> \<open>plugin_execution_time\<close> is the measured duration of that call;
  \<^item> \<open>import_openai\<close> is the outcome of importing \<^verbatim>\<open>handle_auto_reply\<close> from the
    OpenAI plugin, and \<open>openai_auto_reply\<close> is that function;
  \<^item> \<open>import_xiaoyu\<close> is the outcome of the import from the XiaoYu plugin in
    \<^verbatim>\<open>callback_base\<close>.
\<close>

datatype import_result = ImportOk | ImportError | ImportRaises py_exception

record environment =
  robot_qq :: string
  master_qq :: string
  self_qq :: string
  auto_replies :: "string list"
  about_command :: string
  special_command :: string
  validate_command :: "string \<Rightarrow> bool"
  run_handler :: "plugin_meta \<Rightarrow> parsed_data \<Rightarrow> py_exception option"
  plugin_execution_time :: real
  import_openai :: import_result
  openai_auto_reply :: "string \<Rightarrow> py_exception + string option"
  import_xiaoyu :: import_result

subsection \<open>\<^verbatim>\<open>SecurityManager.validate_input\<close> and \<^verbatim>\<open>validate_plugin_access\<close>\<close>

text \<open>
  Both functions catch their own exceptions.  \<^verbatim>\<open>validate_input\<close> is called with a
  dictionary; it rejects a serialised size above 50000 and a string value longer than
  5000.  \<^verbatim>\<open>validate_plugin_access\<close> returns \<^verbatim>\<open>True\<close> on each of its three paths.
\<close>

definition validate_input :: "inbound \<Rightarrow> bool" where
  "validate_input data =
     (if dumps_length data > 50000 then False
      else if \<exists>v \<in> set (string_values data). length v > 5000 then False
      else True)"

definition validate_plugin_access ::
  "string \<Rightarrow> security_manager \<Rightarrow> string \<Rightarrow> string \<Rightarrow> bool" where
  "validate_plugin_access self_id sm plugin_name uid =
     (let (has_permission, _) = check_permission self_id sm uid ''manage_plugins''
      in if has_permission then True
         else if lower plugin_name \<in> set [''general'', ''help'', ''weather''] then True
         else True)"

subsection \<open>\<^verbatim>\<open>callback_base\<close>\<close>

text \<open>
  \<open>now_ip\<close> and \<open>now_user\<close> are the clock readings of the two rate-limit checks.
  The request body has been parsed by the caller (\<^verbatim>\<open>bot.callback\<close>), so
  \<^verbatim>\<open>request.get_json()\<close> returns it without raising; \<open>None\<close> is an empty body.  The
  blocks for friend requests, group invitations and new group members call the
  platform and the XiaoYu plugin inside their own \<^verbatim>\<open>try\<close>/\<^verbatim>\<open>except\<close> and do not
  touch the state modelled here; the nickname is read but not used by the dispatch.
  An exception of class \<^verbatim>\<open>Exception\<close> anywhere in the body ends in the response
  with retcode 1 and status 500.
\<close>

definition callback_base ::
  "environment \<Rightarrow> real \<Rightarrow> real \<Rightarrow> gateway \<Rightarrow> request
   \<Rightarrow> (response + parsed_data) outcome \<times> gateway" where
  "callback_base env now_ip now_user gw req =
     (let client_ip = remote_addr req;
          (ip_result, sm1) = check_rate_limit now_ip (security gw) client_ip;
          gw1 = gw\<lparr>security := sm1\<rparr>
      in if \<not> tuple_truthy ip_result then (Returned (Inl (Response 429 429)), gw1)
         else case body req of
           None \<Rightarrow> (Returned (Inl (Response 1 400)), gw1)
         | Some data \<Rightarrow>
             if \<not> validate_input data then (Returned (Inl (Response 403 403)), gw1)
             else case import_xiaoyu env of
               ImportRaises e \<Rightarrow>
                 (if is_Exception e then (Returned (Inl (Response 1 500)), gw1)
                  else (Raised e, gw1))
             | _ \<Rightarrow>
                 if post_type data \<noteq> Some ''message''
                 then (Returned (Inl (Response 0 200)),
                       gw1\<lparr>security :=
                             log_audit_event (self_qq env) sm1 ''system'' (post_type data)
                               None (Some True)\<rparr>)
                 else
                   let ctype = message_type data;
                       sender_id = (case user_id data of None \<Rightarrow> [] | Some u \<Rightarrow> u);
                       target_id =
                         (case (if ctype = Some ''private'' then user_id data else group_id data)
                          of None \<Rightarrow> [] | Some t \<Rightarrow> t);
                       raw_msg = strip (case raw_message data of None \<Rightarrow> [] | Some m \<Rightarrow> m);
                       (user_result, sm2) =
                          check_rate_limit now_user sm1 (''user_'' @ sender_id);
                       gw2 = gw1\<lparr>security := sm2\<rparr>
                   in if \<not> tuple_truthy user_result
                      then (Returned (Inl (Response 0 200)),
                            (if ctype = Some ''private''
                             then gw2\<lparr>outbox := outbox gw2 @
                                    [\<lparr>out_target = sender_id, out_content = RateLimitNotice,
                                      out_chat_type = Some ''private''\<rparr>]\<rparr>
                             else gw2))
                      else
                        let is_at_bot =
                              (if ctype = Some ''group''
                               then (case message data of
                                       Some segments \<Rightarrow>
                                         list_ex (\<lambda>(ty, qq). ty = ''at'' \<and> qq = robot_qq env) segments
                                     | None \<Rightarrow> str_contains (''@'' @ robot_qq env) raw_msg)
                               else False);
                            raw_msg' =
                              (if ctype = Some ''group'' \<and> is_at_bot
                               then strip (remove_all (''@'' @ robot_qq env) 0 raw_msg)
                               else raw_msg)
                        in if sender_id = robot_qq env
                           then (Returned (Inl (Response 0 200)), gw2)
                           else (Returned (Inr \<lparr>pd_chat_type = ctype,
                                                pd_sender_id = sender_id,
                                                pd_target_id = target_id,
                                                pd_raw_msg = raw_msg',
                                                pd_is_at_bot = is_at_bot,
                                                pd_data = data\<rparr>), gw2))"

subsection \<open>\<^verbatim>\<open>dispatch_plugin_cmd\<close>\<close>

text \<open>
  The block \<^verbatim>\<open>if not handled:\<close> that checks permissions, matches a plugin and calls
  its handler inside the inner \<^verbatim>\<open>try\<close>.  The result is the exception that leaves the
  block (if any), the flag \<open>handled\<close> and the state.
\<close>

definition plugin_stage ::
  "environment \<Rightarrow> gateway \<Rightarrow> parsed_data \<Rightarrow> py_exception option \<times> bool \<times> gateway" where
  "plugin_stage env gw pd =
     (let sender_id = pd_sender_id pd;
          raw_msg = pd_raw_msg pd;
          (has_basic_perm, _) = check_permission (self_qq env) (security gw) sender_id ''basic_query'';
          (has_plugin_perm, _) = check_permission (self_qq env) (security gw) sender_id ''use_plugins'';
          has_permission = (has_basic_perm \<or> has_plugin_perm)
      in if has_permission then
           (case (case pd_chat_type pd of
                    None \<Rightarrow> None
                  | Some ctype \<Rightarrow>
                      get_matched_plugin (master_qq env) (registry gw) raw_msg ctype sender_id
                        (pd_is_at_bot pd)) of
              None \<Rightarrow> (None, False, gw)
            | Some matched_plugin \<Rightarrow>
                let plugin_name = name matched_plugin
                in if validate_plugin_access (self_qq env) (security gw) plugin_name sender_id then
                     (case run_handler env matched_plugin pd of
                        None \<Rightarrow>
                          (None, True,
                           gw\<lparr>monitor := record_plugin_execution (monitor gw) plugin_name
                                              (plugin_execution_time env) True,
                              security := log_audit_event (self_qq env) (security gw) sender_id
                                              (Some ''plugin_executed'') (Some plugin_name) (Some True)\<rparr>)
                      | Some e \<Rightarrow>
                          if is_Exception e then
                            (None, False,
                             gw\<lparr>monitor := record_plugin_execution (monitor gw) plugin_name
                                                (plugin_execution_time env) False,
                                security := log_audit_event (self_qq env) (security gw) sender_id
                                                (Some ''plugin_executed'') (Some plugin_name) (Some False)\<rparr>)
                          else (Some e, False, gw))
                   else
                     (None, False,
                      gw\<lparr>security := log_audit_event (self_qq env) (security gw) sender_id
                                         (Some ''permission_denied'') (Some ''plugin'') (Some False)\<rparr>))
         else (None, False, gw))"

text \<open>The last block \<^verbatim>\<open>if not handled:\<close>, the automatic reply.\<close>

definition auto_reply_stage ::
  "environment \<Rightarrow> gateway \<Rightarrow> parsed_data \<Rightarrow> py_exception option \<times> gateway" where
  "auto_reply_stage env gw pd =
     (case import_openai env of
        ImportError \<Rightarrow> (None, gw)
      | ImportRaises e \<Rightarrow> (Some e, gw)
      | ImportOk \<Rightarrow>
          let raw_msg = pd_raw_msg pd;
              ctype = pd_chat_type pd;
              is_special_command = str_contains (special_command env) raw_msg;
              is_auto_reply_match = (raw_msg \<in> set (auto_replies env));
              is_private_direct_chat =
                (ctype = Some ''private''
                 \<and> \<not> (take 1 raw_msg = ''/'' \<or> take 2 raw_msg = ''//'')
                 \<and> \<not> is_special_command);
              is_group_at_reply = (ctype = Some ''group'' \<and> pd_is_at_bot pd)
          in if is_auto_reply_match \<or> is_private_direct_chat \<or> is_group_at_reply then
               (case openai_auto_reply env raw_msg of
                  Inl e \<Rightarrow> (Some e, gw)
                | Inr None \<Rightarrow> (None, gw)
                | Inr (Some auto_reply) \<Rightarrow>
                    if auto_reply = [] then (None, gw)
                    else if ctype = Some ''group''
                    then (None, gw\<lparr>outbox := outbox gw @
                            [\<lparr>out_target = pd_target_id pd, out_content = AutoReply auto_reply,
                              out_chat_type = Some ''group''\<rparr>]\<rparr>)
                    else (None, gw\<lparr>outbox := outbox gw @
                            [\<lparr>out_target = pd_sender_id pd, out_content = AutoReply auto_reply,
                              out_chat_type = Some ''private''\<rparr>]\<rparr>))
             else (None, gw))"

text \<open>
  The whole function.  The outer \<^verbatim>\<open>except Exception\<close> turns an exception of the
  automatic reply into the response with retcode 1 and status 500; an exit request
  leaves the function.
\<close>

definition dispatch_plugin_cmd ::
  "environment \<Rightarrow> gateway \<Rightarrow> parsed_data \<Rightarrow> response outcome \<times> gateway" where
  "dispatch_plugin_cmd env gw pd =
     (let gw1 = gw\<lparr>security := log_audit_event (self_qq env) (security gw) (pd_sender_id pd)
                                   (Some ''message_received'') None (Some True)\<rparr>;
          (handled1, gw2) =
             (if strip (pd_raw_msg pd) = about_command env then
                (if validate_command env (pd_raw_msg pd)
                 then (True, gw1\<lparr>outbox := outbox gw1 @
                         [\<lparr>out_target = pd_target_id pd, out_content = AboutText,
                           out_chat_type = pd_chat_type pd\<rparr>]\<rparr>)
                 else (False, gw1))
              else (False, gw1));
          (raised2, handled2, gw3) =
             (if \<not> handled1 then plugin_stage env gw2 pd else (None, handled1, gw2))
      in case raised2 of
           Some e \<Rightarrow> (Raised e, gw3)
         | None \<Rightarrow>
             let (raised3, gw4) =
                   (if \<not> handled2 then auto_reply_stage env gw3 pd else (None, gw3))
             in case raised3 of
                  None \<Rightarrow> (Returned (Response 0 200), gw4)
                | Some e \<Rightarrow>
                    if is_Exception e then (Returned (Response 1 500), gw4)
                    else (Raised e, gw4))"

text \<open>
  \<^verbatim>\<open>bot.callback\<close> after its checks of the content type and of the JSON body: the
  base handler, then the dispatch when the base handler returned the dictionary of a
  message event.  The counters of received and processed messages are left out.
\<close>

definition callback ::
  "environment \<Rightarrow> real \<Rightarrow> real \<Rightarrow> gateway \<Rightarrow> request \<Rightarrow> response outcome \<times> gateway" where
  "callback env now_ip now_user gw req =
     (case callback_base env now_ip now_user gw req of
        (Raised e, gw1) \<Rightarrow> (Raised e, gw1)
      | (Returned (Inl resp), gw1) \<Rightarrow> (Returned resp, gw1)
      | (Returned (Inr parsed), gw1) \<Rightarrow> dispatch_plugin_cmd env gw1 parsed)"

text \<open>
  The conditions under which \<^verbatim>\<open>dispatch_plugin_cmd\<close> calls the handler of \<open>plugin\<close>:
  the built-in command has not handled the message, the caller holds one of the two
  permissions, and the matcher returns \<open>plugin\<close>.
\<close>

definition handler_invoked :: "environment \<Rightarrow> gateway \<Rightarrow> parsed_data \<Rightarrow> plugin_meta \<Rightarrow> bool" where
  "handler_invoked env gw pd plugin \<longleftrightarrow>
     \<not> (strip (pd_raw_msg pd) = about_command env \<and> validate_command env (pd_raw_msg pd)) \<and>
     (fst (check_permission (self_qq env) (security gw) (pd_sender_id pd) ''basic_query'') \<or>
      fst (check_permission (self_qq env) (security gw) (pd_sender_id pd) ''use_plugins'')) \<and>
     (\<exists>ctype. pd_chat_type pd = Some ctype \<and>
        get_matched_plugin (master_qq env) (registry gw) (pd_raw_msg pd) ctype (pd_sender_id pd)
          (pd_is_at_bot pd) = Some plugin)"

text \<open>The counters of a plugin, zero when the accountant has no entry for it.\<close>

definition executions_of :: "monitor_manager \<Rightarrow> string \<Rightarrow> nat" where
  "executions_of mm plugin_name =
     (case plugin_stats mm plugin_name of None \<Rightarrow> 0 | Some s \<Rightarrow> total_executions s)"

definition successes_of :: "monitor_manager \<Rightarrow> string \<Rightarrow> nat" where
  "successes_of mm plugin_name =
     (case plugin_stats mm plugin_name of None \<Rightarrow> 0 | Some s \<Rightarrow> successful_executions s)"

text \<open>A sample configuration, state and message for worked examples: user 10001
  sends \<open>foo\<close> in a private chat while \<open>example_plugin_A\<close> is registered.\<close>

definition example_env :: "(plugin_meta \<Rightarrow> parsed_data \<Rightarrow> py_exception option) \<Rightarrow> environment" where
  "example_env h =
     \<lparr>robot_qq = ''1972693082'', master_qq = ''192004908'', self_qq = [],
      auto_replies = [], about_command = ''/about'', special_command = ''help'',
      validate_command = (\<lambda>_. False), run_handler = h, plugin_execution_time = 1 / 4,
      import_openai = ImportError, openai_auto_reply = (\<lambda>_. Inr None),
      import_xiaoyu = ImportError\<rparr>"

definition example_gateway :: "rate_limiter \<Rightarrow> gateway" where
  "example_gateway rl =
     \<lparr>security = \<lparr>limiter = rl, role_permissions = initial_role_permissions,
                   user_roles = [''192004908'' \<mapsto> MASTER], blacklist = Map.empty,
                   audit_logs = []\<rparr>,
      monitor = \<lparr>plugin_stats = Map.empty\<rparr>,
      registry = [example_plugin_A],
      outbox = []\<rparr>"

definition example_data :: inbound where
  "example_data =
     \<lparr>post_type = Some ''message'', message_type = Some ''private'', user_id = Some ''10001'',
      group_id = None, raw_message = Some ''foo'', message = None, dumps_length = 120,
      string_values = [''message'', ''private'', ''foo'']\<rparr>"

definition example_parsed :: parsed_data where
  "example_parsed =
     \<lparr>pd_chat_type = Some ''private'', pd_sender_id = ''10001'', pd_target_id = ''10001'',
      pd_raw_msg = ''foo'', pd_is_at_bot = False, pd_data = example_data\<rparr>"

text \<open>A limiter that holds sixty requests of user 10001 from the last minute, and
  the callback request that carries \<open>example_data\<close>.\<close>

definition saturated_limiter :: rate_limiter where
  "saturated_limiter = \<lparr>requests = [''user_10001'' \<mapsto> sixty_requests]\<rparr>"

definition example_request :: request where
  "example_request = \<lparr>remote_addr = ''127.0.0.1'', body = Some example_data\<rparr>"

section \<open>Version comparison\<close>

subsection \<open>The comparison of two lists of components\<close>

lemma compare_loop_cmpf:
  "compare_loop a b [k..<k + d] = cmpf (\<lambda>i. a ! i) (\<lambda>i. b ! i) k d"
proof (induction d arbitrary: k)
  case 0
  show ?case by simp
next
  case (Suc d)
  have "[k..<k + Suc d] = k # [Suc k..<Suc k + d]" by (simp add: upt_rec)
  then show ?case using Suc [of "Suc k"] by simp
qed

lemma cmpf_cong:
  "(\<And>i. k \<le> i \<Longrightarrow> i < k + d \<Longrightarrow> f i = f' i \<and> g i = g' i) \<Longrightarrow> cmpf f g k d = cmpf f' g' k d"
proof (induction d arbitrary: k)
  case 0
  show ?case by simp
next
  case (Suc d)
  have "f k = f' k \<and> g k = g' k" using Suc.prems [of k] by simp
  moreover have "cmpf f g (Suc k) d = cmpf f' g' (Suc k) d"
    by (rule Suc.IH) (use Suc.prems in simp)
  ultimately show ?case by simp
qed

lemma cmpf_extend:
  "(\<And>i. k + d \<le> i \<Longrightarrow> f i = g i) \<Longrightarrow> cmpf f g k (d + e) = cmpf f g k d"
proof (induction d arbitrary: k)
  case 0
  then show ?case by (induction e arbitrary: k) simp_all
next
  case (Suc d)
  have "cmpf f g (Suc k) (d + e) = cmpf f g (Suc k) d"
    by (rule Suc.IH) (use Suc.prems in simp)
  then show ?case by simp
qed

lemma cmpf_refl: "cmpf f f k d = 0"
  by (induction d arbitrary: k) simp_all

lemma cmpf_skew: "cmpf g f k d = - cmpf f g k d"
  by (induction d arbitrary: k) simp_all

lemma cmpf_range: "cmpf f g k d \<in> {- 1, 0, 1}"
  by (induction d arbitrary: k) simp_all

lemma cmpf_trans:
  "cmpf f g k d \<le> 0 \<Longrightarrow> cmpf g h k d \<le> 0 \<Longrightarrow> cmpf f h k d \<le> 0"
  by (induction d arbitrary: k) (auto split: if_splits)

lemma cmpf_componentwise:
  "length xs = length ys \<Longrightarrow>
   cmpf (\<lambda>i. xs ! (i - k)) (\<lambda>i. ys ! (i - k)) k (length xs) = componentwise xs ys"
proof (induction xs arbitrary: ys k)
  case Nil
  then show ?case by simp
next
  case (Cons x xs)
  then obtain y ys' where ys: "ys = y # ys'" and len: "length xs = length ys'"
    by (cases ys) simp_all
  have "cmpf (\<lambda>i. (x # xs) ! (i - k)) (\<lambda>i. (y # ys') ! (i - k)) (Suc k) (length xs)
        = cmpf (\<lambda>i. xs ! (i - Suc k)) (\<lambda>i. ys' ! (i - Suc k)) (Suc k) (length xs)"
    by (rule cmpf_cong) (simp add: Suc_diff_le)
  also have "\<dots> = componentwise xs ys'" by (rule Cons.IH [OF len])
  finally have rest: "cmpf (\<lambda>i. (x # xs) ! (i - k)) (\<lambda>i. (y # ys') ! (i - k)) (Suc k) (length xs)
        = componentwise xs ys'" .
  have "cmpf (\<lambda>i. (x # xs) ! (i - k)) (\<lambda>i. (y # ys') ! (i - k)) k (Suc (length xs))
        = (if x > y then 1 else if x < y then - 1 else componentwise xs ys')"
    by (simp only: cmpf.simps rest diff_self_eq_0 nth_Cons_0)
  then show ?case using ys by simp
qed

lemma componentwise_zero_iff:
  "length xs = length ys \<Longrightarrow> componentwise xs ys = 0 \<longleftrightarrow> xs = ys"
proof (induction xs arbitrary: ys)
  case Nil
  then show ?case by simp
next
  case (Cons x xs)
  then show ?case by (cases ys) auto
qed

lemma compare_parts_cmpf:
  assumes "length p \<le> n" "length q \<le> n"
  shows "compare_parts p q = cmpf (nth0 p) (nth0 q) 0 n"
proof -
  define m where "m = max (length p) (length q)"
  have "compare_parts p q
        = cmpf (\<lambda>i. (p @ replicate (m - length p) 0) ! i)
               (\<lambda>i. (q @ replicate (m - length q) 0) ! i) 0 m"
    using compare_loop_cmpf [of _ _ 0 m] by (simp add: compare_parts_def m_def Let_def)
  also have "\<dots> = cmpf (nth0 p) (nth0 q) 0 m"
    by (rule cmpf_cong) (auto simp: nth0_def nth_append m_def)
  also have "\<dots> = cmpf (nth0 p) (nth0 q) 0 (m + (n - m))"
    by (rule cmpf_extend [symmetric]) (simp add: nth0_def m_def)
  also have "m + (n - m) = n" using assms by (simp add: m_def)
  finally show ?thesis .
qed

lemma compare_parts_componentwise:
  "compare_parts p q
   = componentwise (zero_pad (max (length p) (length q)) p)
                   (zero_pad (max (length p) (length q)) q)"
proof -
  define m where "m = max (length p) (length q)"
  have len: "length (zero_pad m p) = m" "length (zero_pad m q) = m"
    by (simp_all add: zero_pad_def m_def)
  have "compare_parts p q = cmpf (\<lambda>i. zero_pad m p ! (i - 0)) (\<lambda>i. zero_pad m q ! (i - 0)) 0 m"
    using compare_loop_cmpf [of _ _ 0 m]
    by (simp add: compare_parts_def m_def Let_def zero_pad_def)
  also have "\<dots> = componentwise (zero_pad m p) (zero_pad m q)"
    using cmpf_componentwise [of "zero_pad m p" "zero_pad m q" 0] len by simp
  finally show ?thesis by (simp add: m_def)
qed

lemma compare_parts_refl: "compare_parts p p = 0"
  by (simp add: compare_parts_cmpf [of p "length p" p] cmpf_refl)

lemma compare_parts_skew: "compare_parts q p = - compare_parts p q"
proof -
  have "compare_parts q p = cmpf (nth0 q) (nth0 p) 0 (max (length p) (length q))"
    by (rule compare_parts_cmpf) simp_all
  also have "\<dots> = - cmpf (nth0 p) (nth0 q) 0 (max (length p) (length q))"
    by (rule cmpf_skew)
  also have "cmpf (nth0 p) (nth0 q) 0 (max (length p) (length q)) = compare_parts p q"
    by (rule compare_parts_cmpf [symmetric]) simp_all
  finally show ?thesis .
qed

lemma compare_parts_range: "compare_parts p q \<in> {- 1, 0, 1}"
  using compare_parts_cmpf [of p "max (length p) (length q)" q] cmpf_range
  by simp

lemma compare_parts_trans:
  assumes "compare_parts p q \<le> 0" "compare_parts q r \<le> 0"
  shows "compare_parts p r \<le> 0"
proof -
  define n where "n = max (length p) (max (length q) (length r))"
  have "length p \<le> n" "length q \<le> n" "length r \<le> n" by (simp_all add: n_def)
  then have "compare_parts p q = cmpf (nth0 p) (nth0 q) 0 n"
    "compare_parts q r = cmpf (nth0 q) (nth0 r) 0 n"
    "compare_parts p r = cmpf (nth0 p) (nth0 r) 0 n"
    by (simp_all add: compare_parts_cmpf)
  then show ?thesis using assms cmpf_trans by metis
qed

subsection \<open>The parser against the specification's reading of a version\<close>

lemma digit_runs_digits:
  "list_all is_digit ds \<Longrightarrow> digit_runs acc (ds @ rest) = digit_runs (acc @ ds) rest"
  by (induction ds arbitrary: acc) simp_all

lemma digit_runs_no_digit:
  "no_digit sep \<Longrightarrow> digit_runs [] (sep @ rest) = digit_runs [] rest"
  by (induction sep) (simp_all add: no_digit_def)

lemma digit_runs_separator:
  "no_digit sep \<Longrightarrow> sep \<noteq> [] \<Longrightarrow> acc \<noteq> [] \<Longrightarrow>
   digit_runs acc (sep @ rest) = acc # digit_runs [] rest"
proof (cases sep)
  case Nil
  assume "sep \<noteq> []"
  with Nil show ?thesis by simp
next
  case (Cons c cs)
  assume nd: "no_digit sep" and acc: "acc \<noteq> []"
  from nd Cons have c: "\<not> is_digit c" and cs: "no_digit cs" by (simp_all add: no_digit_def)
  from c acc Cons show ?thesis by (simp add: digit_runs_no_digit [OF cs])
qed

lemma digit_runs_end:
  "no_digit sep \<Longrightarrow> acc \<noteq> [] \<Longrightarrow> digit_runs acc sep = [acc]"
proof (cases sep)
  case Nil
  assume "acc \<noteq> []"
  with Nil show ?thesis by simp
next
  case (Cons c cs)
  assume nd: "no_digit sep" and acc: "acc \<noteq> []"
  from digit_runs_separator [OF nd _ acc, of "[]"] Cons show ?thesis by simp
qed

lemma digit_below_ten: "d < 10 \<Longrightarrow> d \<in> {0, 1, 2, 3, 4, 5, 6, 7, 8, 9 :: nat}"
  by auto

lemma is_digit_digit_char: "d < 10 \<Longrightarrow> is_digit (digit_char d)"
  using digit_below_ten [of d] by (auto simp: is_digit_def digit_char_def)

lemma digit_val_digit_char: "d < 10 \<Longrightarrow> digit_val (digit_char d) = int d"
  using digit_below_ten [of d] by (auto simp: digit_val_def digit_char_def)

lemma is_digit_cases: "is_digit c \<Longrightarrow> \<exists>d < 10. c = digit_char d"
proof -
  assume "is_digit c"
  then have "c \<in> set ''0123456789''" by (simp add: is_digit_def)
  then obtain d where "d < length ''0123456789''" "''0123456789'' ! d = c"
    unfolding in_set_conv_nth by blast
  then have "d < 10" "c = digit_char d" by (simp_all add: digit_char_def)
  then show ?thesis by blast
qed

lemma digit_char_0: "digit_char 0 = CHR ''0''"
  by (simp add: digit_char_def)

declare decimal.simps [simp del]

lemma decimal_digits: "list_all is_digit (decimal n)"
proof (induction n rule: decimal.induct)
  case (1 n)
  show ?case
  proof (cases "n < 10")
    case True
    then show ?thesis by (subst decimal.simps) (simp add: is_digit_digit_char)
  next
    case False
    then show ?thesis using 1 by (subst decimal.simps) (simp add: is_digit_digit_char)
  qed
qed

lemma decimal_not_Nil: "decimal n \<noteq> []"
  by (subst decimal.simps) simp

lemma int_of_digits_snoc:
  "int_of_digits (ds @ [c]) = 10 * int_of_digits ds + digit_val c"
  by (simp add: int_of_digits_def)

lemma int_of_digits_decimal: "int_of_digits (decimal n) = int n"
proof (induction n rule: decimal.induct)
  case (1 n)
  show ?case
  proof (cases "n < 10")
    case True
    then show ?thesis
      by (subst decimal.simps) (simp add: int_of_digits_def digit_val_digit_char)
  next
    case False
    then have "int_of_digits (decimal n)
               = 10 * int_of_digits (decimal (n div 10)) + digit_val (digit_char (n mod 10))"
      by (subst decimal.simps) (simp add: int_of_digits_snoc)
    also have "\<dots> = 10 * int (n div 10) + int (n mod 10)"
      using 1 False by (simp add: digit_val_digit_char)
    also have "\<dots> = int n" by presburger
    finally show ?thesis .
  qed
qed

lemma int_of_digits_zeros:
  "int_of_digits (replicate z (CHR ''0'') @ ds) = int_of_digits ds"
proof -
  have "foldl (\<lambda>n c. 10 * n + digit_val c) 0 (replicate z (CHR ''0'')) = 0"
    by (induction z) (simp_all add: digit_val_def)
  then show ?thesis by (simp add: int_of_digits_def)
qed

lemma group_numeral_digits: "list_all is_digit (group_numeral g)"
proof (cases g)
  case (fields z n sep)
  have "is_digit (CHR ''0'')" by (simp add: is_digit_def)
  then have "list_all is_digit (replicate z (CHR ''0''))" by (simp add: list_all_iff)
  then show ?thesis using fields decimal_digits [of n] by (simp add: group_numeral_def)
qed

lemma group_numeral_not_Nil: "group_numeral g \<noteq> []"
  by (cases g) (simp add: group_numeral_def decimal_not_Nil)

lemma group_text_numeral: "group_text g = group_numeral g @ snd (snd g)"
  by (cases g) (simp add: group_text_def group_numeral_def)

lemma length_group_numeral: "length (group_numeral g) = group_digits g"
  by (cases g) (simp add: group_numeral_def group_digits_def)

lemma int_of_group_numeral: "int_of_digits (group_numeral g) = int (group_value g)"
  by (cases g) (simp add: group_numeral_def group_value_def int_of_digits_zeros
      int_of_digits_decimal)

lemma digit_runs_groups:
  "well_separated groups \<Longrightarrow>
   digit_runs [] (concat (map group_text groups)) = map group_numeral groups"
proof (induction groups rule: well_separated.induct)
  case 1
  show ?case by simp
next
  case (2 g)
  then have nd: "no_digit (snd (snd g))" by simp
  have "digit_runs [] (group_numeral g @ snd (snd g)) = digit_runs (group_numeral g) (snd (snd g))"
    using digit_runs_digits [OF group_numeral_digits, of "[]" g] by simp
  also have "\<dots> = [group_numeral g]"
    by (rule digit_runs_end [OF nd group_numeral_not_Nil])
  finally show ?case by (simp add: group_text_numeral)
next
  case (3 g g' gs)
  then have nd: "no_digit (snd (snd g))" and ne: "snd (snd g) \<noteq> []"
    and rest: "digit_runs [] (concat (map group_text (g' # gs))) = map group_numeral (g' # gs)"
    by simp_all
  have "digit_runs [] (group_numeral g @ snd (snd g) @ concat (map group_text (g' # gs)))
        = digit_runs (group_numeral g) (snd (snd g) @ concat (map group_text (g' # gs)))"
    using digit_runs_digits [OF group_numeral_digits, of "[]" g] by simp
  also have "\<dots> = group_numeral g # digit_runs [] (concat (map group_text (g' # gs)))"
    by (rule digit_runs_separator [OF nd ne group_numeral_not_Nil])
  finally have "digit_runs [] (group_text g @ concat (map group_text (g' # gs)))
        = group_numeral g # map group_numeral (g' # gs)"
    using rest by (simp only: group_text_numeral append_assoc)
  then show ?case by (simp only: list.map concat.simps)
qed

lemma digit_runs_version_text:
  "no_digit pre \<Longrightarrow> well_separated groups \<Longrightarrow>
   digit_runs [] (version_text pre groups) = map group_numeral groups"
  by (simp add: version_text_def digit_runs_no_digit digit_runs_groups)

lemma int_each_Some:
  "list_all (\<lambda>p. py_int mx p \<noteq> None) parts \<Longrightarrow>
   int_each mx parts = Some (map int_of_digits parts)"
proof (induction parts)
  case Nil
  show ?case by simp
next
  case (Cons p ps)
  then have "py_int mx p = Some (int_of_digits p)"
    by (simp add: py_int_def split: if_splits)
  then show ?case using Cons by simp
qed

lemma int_each_None:
  "\<not> list_all (\<lambda>p. py_int mx p \<noteq> None) parts \<Longrightarrow> int_each mx parts = None"
  by (induction parts) (auto split: option.splits)

lemma py_int_group:
  "py_int mx (group_numeral g) \<noteq> None \<longleftrightarrow>
   (group_digits g \<le> str_digits_check_threshold \<or> mx = 0 \<or> group_digits g \<le> mx)"
  by (auto simp: py_int_def length_group_numeral)

lemma parse_version_text:
  assumes "no_digit pre" "well_separated groups"
  shows "parse_version mx (version_text pre groups)
         = (if convertible mx groups then map (\<lambda>g. int (group_value g)) groups else [0])"
proof -
  have runs: "digit_runs [] (version_text pre groups) = map group_numeral groups"
    by (rule digit_runs_version_text [OF assms])
  have conv: "list_all (\<lambda>p. py_int mx p \<noteq> None) (map group_numeral groups)
              \<longleftrightarrow> convertible mx groups"
    by (simp add: convertible_def list_all_iff py_int_group del: not_None_eq)
  show ?thesis
  proof (cases "convertible mx groups")
    case True
    then have "int_each mx (map group_numeral groups)
               = Some (map int_of_digits (map group_numeral groups))"
      using conv int_each_Some by blast
    then show ?thesis using True
      by (simp add: parse_version_def runs int_of_group_numeral comp_def)
  next
    case False
    then have "int_each mx (map group_numeral groups) = None"
      using conv int_each_None by blast
    then show ?thesis using False by (simp add: parse_version_def runs)
  qed
qed

lemma decimal_digit: "d < 10 \<Longrightarrow> decimal d = [digit_char d]"
  by (subst decimal.simps) simp

lemma decimal_snoc:
  "0 < n \<Longrightarrow> d < 10 \<Longrightarrow> decimal (10 * n + d) = decimal n @ [digit_char d]"
  by (subst decimal.simps) simp

lemma numeral_shape:
  "list_all is_digit ds \<Longrightarrow> ds \<noteq> [] \<Longrightarrow> \<exists>z n. ds = replicate z (CHR ''0'') @ decimal n"
proof (induction ds rule: rev_induct)
  case Nil
  then show ?case by simp
next
  case (snoc c xs)
  from snoc.prems have "is_digit c" by simp
  then obtain d where d: "d < 10" "c = digit_char d" using is_digit_cases by blast
  show ?case
  proof (cases "xs = []")
    case True
    then have "xs @ [c] = replicate 0 (CHR ''0'') @ decimal d"
      using d by (simp add: decimal_digit)
    then show ?thesis by blast
  next
    case False
    with snoc obtain z n where xs: "xs = replicate z (CHR ''0'') @ decimal n" by auto
    show ?thesis
    proof (cases "n = 0")
      case True
      then have "xs = replicate (Suc z) (CHR ''0'')"
        using xs by (simp add: decimal_digit digit_char_0 replicate_append_same)
      then have "xs @ [c] = replicate (Suc z) (CHR ''0'') @ decimal d"
        using d by (simp add: decimal_digit)
      then show ?thesis by blast
    next
      case False
      then have "xs @ [c] = replicate z (CHR ''0'') @ decimal (10 * n + d)"
        using xs d by (simp add: decimal_snoc)
      then show ?thesis by blast
    qed
  qed
qed

lemma well_separated_first:
  "well_separated ((z, n, sep) # gs) = well_separated ((z', n', sep) # gs)"
  by (cases gs) simp_all

lemma version_text_exists:
  "\<exists>pre groups. no_digit pre \<and> well_separated groups \<and> s = version_text pre groups"
proof (induction s)
  case Nil
  have "no_digit [] \<and> well_separated [] \<and> [] = version_text [] []"
    by (simp add: no_digit_def version_text_def)
  then show ?case by blast
next
  case (Cons c s)
  then obtain pre groups where pre: "no_digit pre" and ws: "well_separated groups"
    and s: "s = version_text pre groups" by blast
  show ?case
  proof (cases "is_digit c")
    case False
    then have "no_digit (c # pre) \<and> well_separated groups \<and> c # s = version_text (c # pre) groups"
      using pre ws s by (simp add: no_digit_def version_text_def)
    then show ?thesis by blast
  next
    case True
    show ?thesis
    proof (cases "pre = []")
      case False
      from True obtain z n where zn: "[c] = replicate z (CHR ''0'') @ decimal n"
        using numeral_shape [of "[c]"] by auto
      have "well_separated ((z, n, pre) # groups)"
        using pre ws False by (cases groups) simp_all
      moreover have "c # s = version_text [] ((z, n, pre) # groups)"
      proof -
        have "c # s = [c] @ pre @ concat (map group_text groups)"
          using s by (simp add: version_text_def)
        also have "\<dots> = group_text (z, n, pre) @ concat (map group_text groups)"
          by (simp only: zn) (simp add: group_text_def)
        finally show ?thesis by (simp add: version_text_def)
      qed
      moreover have "no_digit []" by (simp add: no_digit_def)
      ultimately show ?thesis by blast
    next
      case pre_Nil: True
      show ?thesis
      proof (cases groups)
        case Nil
        from True obtain z n where zn: "[c] = replicate z (CHR ''0'') @ decimal n"
          using numeral_shape [of "[c]"] by auto
        have "well_separated [(z, n, [])]" by (simp add: no_digit_def)
        moreover have "c # s = version_text [] [(z, n, [])]"
          using s zn pre_Nil Nil by (simp add: version_text_def group_text_def)
        moreover have "no_digit []" by (simp add: no_digit_def)
        ultimately show ?thesis by blast
      next
        case (Cons g gs)
        obtain z n sep where g: "g = (z, n, sep)" by (cases g) auto
        have "list_all is_digit (c # group_numeral g)"
          using True group_numeral_digits by simp
        then obtain z' n' where zn: "c # group_numeral g = replicate z' (CHR ''0'') @ decimal n'"
          using numeral_shape [of "c # group_numeral g"] by auto
        have "well_separated ((z', n', sep) # gs)"
          using ws Cons g well_separated_first by blast
        moreover have "c # s = version_text [] ((z', n', sep) # gs)"
        proof -
          have "c # s = (c # group_numeral g) @ sep @ concat (map group_text gs)"
            using s pre_Nil Cons g by (simp add: version_text_def group_text_numeral)
          also have "\<dots> = group_text (z', n', sep) @ concat (map group_text gs)"
            by (simp only: zn) (simp add: group_text_def)
          finally show ?thesis by (simp add: version_text_def)
        qed
        moreover have "no_digit []" by (simp add: no_digit_def)
        ultimately show ?thesis by blast
      qed
    qed
  qed
qed

lemma decimal_power_ten: "decimal (10 ^ k) = CHR ''1'' # replicate k (CHR ''0'')"
proof (induction k)
  case 0
  show ?case by (simp add: decimal_digit digit_char_def)
next
  case (Suc k)
  have "decimal (10 ^ Suc k) = decimal (10 * 10 ^ k + 0)" by simp
  also have "\<dots> = decimal (10 ^ k) @ [digit_char 0]"
    by (rule decimal_snoc) simp_all
  finally show ?case using Suc
    by (simp add: digit_char_0 replicate_append_same)
qed

lemma digit_runs_numeral:
  "list_all is_digit ds \<Longrightarrow> ds \<noteq> [] \<Longrightarrow> digit_runs [] ds = [ds]"
  using digit_runs_digits [of ds "[]" "[]"] by simp

lemma compare_versions_parts:
  "compare_versions mx a b = compare_parts (parse_version mx a) (parse_version mx b)"
  by (simp add: compare_versions_def)

lemma compare_versions_text:
  assumes "no_digit pre1" "well_separated groups1" "convertible mx groups1"
    and "no_digit pre2" "well_separated groups2" "convertible mx groups2"
  shows "compare_versions mx (version_text pre1 groups1) (version_text pre2 groups2)
         = compare_components (map group_value groups1) (map group_value groups2)"
  using assms
  by (simp add: compare_versions_def parse_version_text compare_parts_componentwise
      compare_components_def Let_def comp_def)

lemma compare_components_zero:
  "compare_components ms ns = 0 \<longleftrightarrow>
   zero_pad (max (length ms) (length ns)) (map int ms)
   = zero_pad (max (length ms) (length ns)) (map int ns)"
  unfolding compare_components_def Let_def
  by (rule componentwise_zero_iff) (simp add: zero_pad_def)

lemma compare_parts_zero:
  "compare_parts p q = 0 \<longleftrightarrow>
   zero_pad (max (length p) (length q)) p = zero_pad (max (length p) (length q)) q"
  unfolding compare_parts_componentwise
  by (rule componentwise_zero_iff) (simp add: zero_pad_def)

lemma parse_version_examples:
  "parse_version mx ''1.2'' = [1, 2]"
  "parse_version mx ''1.2.0'' = [1, 2, 0]"
  "parse_version mx ''2.0'' = [2, 0]"
  "parse_version mx ''1.9.9'' = [1, 9, 9]"
  "parse_version mx ''1.10'' = [1, 10]"
  "parse_version mx ''v1.02.3-beta4'' = [1, 2, 3, 4]"
  by (simp_all add: parse_version_def is_digit_def py_int_def str_digits_check_threshold_def
      int_of_digits_def digit_val_def)

lemma compare_parts_examples:
  "compare_parts [1, 2] [1, 2, 0] = 0"
  "compare_parts [2, 0] [1, 9, 9] = 1"
  "compare_parts [1, 2] [1, 10] = - 1"
  "compare_parts [1, 2] [2, 0] = - 1"
  "compare_parts [1, 2, 0] [2, 0] = - 1"
  "compare_parts [0] [1] = - 1"
  by code_simp+

lemma decimal_one: "decimal 1 = ''1''"
  by (simp add: decimal_digit digit_char_def)

lemma compare_components_power_ten:
  "0 < k \<Longrightarrow> compare_components [10 ^ k] [1] = 1"
proof -
  assume "0 < k"
  then have "(1::int) < 10 ^ k" by (intro one_less_power) simp_all
  then show ?thesis by (simp add: compare_components_def zero_pad_def)
qed

lemma parse_version_power_ten:
  assumes "640 \<le> k" "0 < mx" "mx \<le> k"
  shows "parse_version mx (decimal (10 ^ k)) = [0]"
proof -
  have runs: "digit_runs [] (decimal (10 ^ k)) = [decimal (10 ^ k)]"
    by (rule digit_runs_numeral [OF decimal_digits decimal_not_Nil])
  have len: "length (decimal (10 ^ k)) = Suc k" by (simp add: decimal_power_ten)
  have "py_int mx (decimal (10 ^ k)) = None"
    using assms by (simp add: py_int_def len str_digits_check_threshold_def)
  then show ?thesis by (simp add: parse_version_def runs)
qed

lemma parse_version_one: "parse_version mx (decimal 1) = [1]"
  unfolding decimal_one
  by (simp add: parse_version_def is_digit_def py_int_def
      str_digits_check_threshold_def int_of_digits_def digit_val_def)

lemma compare_versions_power_ten:
  assumes "640 \<le> k" "0 < mx" "mx \<le> k"
  shows "compare_versions mx (decimal (10 ^ k)) (decimal 1) = - 1"
  by (simp only: compare_versions_parts parse_version_power_ten [OF assms] parse_version_one
      compare_parts_examples)

subsection \<open>The order on version strings\<close>

text \<open>
  Claim C7, as stated, at a concrete input.  With the limit of the interpreter at its
  default of 4300 digits, take the version whose only component is \<open>10 ^ 4300\<close>,
  written \<^verbatim>\<open>"1" + "0" * 4300\<close>, and the version \<^verbatim>\<open>"1"\<close>.  Comparing the components
  as integers gives \<open>1\<close>; \<^verbatim>\<open>compare_versions\<close> returns \<open>-1\<close>, since the conversion of
  the 4301 digits raises and \<^verbatim>\<open>parse_version\<close> answers \<^verbatim>\<open>[0]\<close>.
\<close>

theorem compare_versions_over_limit:
  "decimal (10 ^ 4300) = CHR ''1'' # replicate 4300 (CHR ''0'') \<and>
   decimal 1 = ''1'' \<and>
   compare_components [10 ^ 4300] [1] = 1 \<and>
   parse_version default_max_str_digits (decimal (10 ^ 4300)) = [0] \<and>
   compare_versions default_max_str_digits (decimal (10 ^ 4300)) (decimal 1) = - 1"
proof (intro conjI)
  show "decimal (10 ^ 4300) = CHR ''1'' # replicate 4300 (CHR ''0'')"
    by (rule decimal_power_ten)
  show "decimal 1 = ''1''" by (rule decimal_one)
  show "compare_components [10 ^ 4300] [1] = 1"
    by (rule compare_components_power_ten) simp
  show "parse_version default_max_str_digits (decimal (10 ^ 4300)) = [0]"
    by (rule parse_version_power_ten) (simp_all add: default_max_str_digits_def)
  show "compare_versions default_max_str_digits (decimal (10 ^ 4300)) (decimal 1) = - 1"
    by (rule compare_versions_power_ten) (simp_all add: default_max_str_digits_def)
qed

text \<open>
  Claim C7, amended.  Every version string is a text in which groups of digits,
  each the decimal numeral of a number with any count of leading zeros, stand between
  characters that are not digits.  \<^verbatim>\<open>parse_version\<close> returns the numbers of the groups
  when every group is within the limit of the interpreter on the digits of a
  conversion (up to 640 digits always; up to the limit, 4300 by default; any length
  when the limit is 0), and \<^verbatim>\<open>[0]\<close> otherwise.  For two versions within the limit,
  \<^verbatim>\<open>compare_versions\<close> is the component-wise comparison of their numbers after padding
  the shorter list with zeros, and it is \<open>0\<close> exactly when the padded lists are equal.
  For all version strings and every limit, \<^verbatim>\<open>compare_versions\<close> returns \<open>-1\<close>, \<open>0\<close> or
  \<open>1\<close>, is reflexive (\<open>compare a a = 0\<close>), total (swapping the arguments negates the
  result), transitive, and \<open>0\<close> exactly when the parsed lists are equal after padding;
  \<open>compare "1.2" "1.2.0" = 0\<close>, \<open>compare "2.0" "1.9.9" > 0\<close>, and components are
  compared as numbers, not as text: \<open>compare "1.2" "1.10" < 0\<close>.
\<close>

theorem compare_versions_total_order:
  "(\<forall>s. \<exists>pre groups. no_digit pre \<and> well_separated groups \<and> s = version_text pre groups) \<and>
   (\<forall>mx pre groups. no_digit pre \<and> well_separated groups \<longrightarrow>
      parse_version mx (version_text pre groups)
      = (if convertible mx groups then map (\<lambda>g. int (group_value g)) groups else [0])) \<and>
   (\<forall>mx pre1 groups1 pre2 groups2.
      no_digit pre1 \<and> well_separated groups1 \<and> convertible mx groups1 \<and>
      no_digit pre2 \<and> well_separated groups2 \<and> convertible mx groups2 \<longrightarrow>
      compare_versions mx (version_text pre1 groups1) (version_text pre2 groups2)
      = compare_components (map group_value groups1) (map group_value groups2) \<and>
      (compare_versions mx (version_text pre1 groups1) (version_text pre2 groups2) = 0 \<longleftrightarrow>
       zero_pad (max (length groups1) (length groups2)) (map (\<lambda>g. int (group_value g)) groups1)
       = zero_pad (max (length groups1) (length groups2)) (map (\<lambda>g. int (group_value g)) groups2))) \<and>
   (\<forall>mx a b. compare_versions mx a b \<in> {- 1, 0, 1}) \<and>
   (\<forall>mx a. compare_versions mx a a = 0) \<and>
   (\<forall>mx a b. compare_versions mx b a = - compare_versions mx a b) \<and>
   (\<forall>mx a b c. compare_versions mx a b \<le> 0 \<and> compare_versions mx b c \<le> 0 \<longrightarrow>
      compare_versions mx a c \<le> 0) \<and>
   (\<forall>mx a b. compare_versions mx a b = 0 \<longleftrightarrow>
      zero_pad (max (length (parse_version mx a)) (length (parse_version mx b))) (parse_version mx a)
      = zero_pad (max (length (parse_version mx a)) (length (parse_version mx b))) (parse_version mx b)) \<and>
   (\<forall>mx. compare_versions mx ''1.2'' ''1.2.0'' = 0 \<and>
         compare_versions mx ''2.0'' ''1.9.9'' > 0 \<and>
         compare_versions mx ''1.2'' ''1.10'' < 0 \<and>
         parse_version mx ''v1.02.3-beta4'' = [1, 2, 3, 4])"
proof -
  have grp: "compare_versions mx (version_text pre1 groups1) (version_text pre2 groups2)
      = compare_components (map group_value groups1) (map group_value groups2) \<and>
      (compare_versions mx (version_text pre1 groups1) (version_text pre2 groups2) = 0 \<longleftrightarrow>
       zero_pad (max (length groups1) (length groups2)) (map (\<lambda>g. int (group_value g)) groups1)
       = zero_pad (max (length groups1) (length groups2)) (map (\<lambda>g. int (group_value g)) groups2))"
    if "no_digit pre1 \<and> well_separated groups1 \<and> convertible mx groups1 \<and>
        no_digit pre2 \<and> well_separated groups2 \<and> convertible mx groups2"
    for mx pre1 groups1 pre2 groups2
  proof -
    have eq: "compare_versions mx (version_text pre1 groups1) (version_text pre2 groups2)
      = compare_components (map group_value groups1) (map group_value groups2)"
      using that by (simp add: compare_versions_text)
    show ?thesis
      using compare_components_zero [of "map group_value groups1" "map group_value groups2"]
      by (simp add: eq comp_def)
  qed
  have range: "compare_versions mx a b \<in> {- 1, 0, 1}" for mx a b
    unfolding compare_versions_def by (rule compare_parts_range)
  have refl: "compare_versions mx a a = 0" for mx a
    by (simp add: compare_versions_def compare_parts_refl)
  have skew: "compare_versions mx b a = - compare_versions mx a b" for mx a b
    unfolding compare_versions_def by (rule compare_parts_skew)
  have trans: "compare_versions mx a c \<le> 0"
    if "compare_versions mx a b \<le> 0 \<and> compare_versions mx b c \<le> 0" for mx a b c
    using that unfolding compare_versions_def by (blast intro: compare_parts_trans)
  have zero: "compare_versions mx a b = 0 \<longleftrightarrow>
      zero_pad (max (length (parse_version mx a)) (length (parse_version mx b))) (parse_version mx a)
      = zero_pad (max (length (parse_version mx a)) (length (parse_version mx b))) (parse_version mx b)"
    for mx a b
    unfolding compare_versions_def by (rule compare_parts_zero)
  have examples: "compare_versions mx ''1.2'' ''1.2.0'' = 0 \<and>
         compare_versions mx ''2.0'' ''1.9.9'' > 0 \<and>
         compare_versions mx ''1.2'' ''1.10'' < 0 \<and>
         parse_version mx ''v1.02.3-beta4'' = [1, 2, 3, 4]" for mx
    by (simp add: compare_versions_parts parse_version_examples compare_parts_examples)
  show ?thesis
  proof (intro conjI allI impI)
    fix s :: string
    show "\<exists>pre groups. no_digit pre \<and> well_separated groups \<and> s = version_text pre groups"
      by (rule version_text_exists)
  next
    fix mx pre groups
    assume "no_digit pre \<and> well_separated groups"
    then show "parse_version mx (version_text pre groups)
      = (if convertible mx groups then map (\<lambda>g. int (group_value g)) groups else [0])"
      by (simp add: parse_version_text)
  next
    fix mx pre1 groups1 pre2 groups2
    assume h: "no_digit pre1 \<and> well_separated groups1 \<and> convertible mx groups1 \<and>
        no_digit pre2 \<and> well_separated groups2 \<and> convertible mx groups2"
    show "compare_versions mx (version_text pre1 groups1) (version_text pre2 groups2)
      = compare_components (map group_value groups1) (map group_value groups2)"
      using grp [OF h] by (rule conjunct1)
    show "compare_versions mx (version_text pre1 groups1) (version_text pre2 groups2) = 0 \<longleftrightarrow>
       zero_pad (max (length groups1) (length groups2)) (map (\<lambda>g. int (group_value g)) groups1)
       = zero_pad (max (length groups1) (length groups2)) (map (\<lambda>g. int (group_value g)) groups2)"
      using grp [OF h] by (rule conjunct2)
  next
    fix mx a b
    show "compare_versions mx a b \<in> {- 1, 0, 1}" by (rule range)
    show "compare_versions mx a a = 0" by (rule refl)
    show "compare_versions mx b a = - compare_versions mx a b" by (rule skew)
    show "compare_versions mx a b = 0 \<longleftrightarrow>
      zero_pad (max (length (parse_version mx a)) (length (parse_version mx b))) (parse_version mx a)
      = zero_pad (max (length (parse_version mx a)) (length (parse_version mx b))) (parse_version mx b)"
      by (rule zero)
  next
    fix mx a b c
    assume "compare_versions mx a b \<le> 0 \<and> compare_versions mx b c \<le> 0"
    then show "compare_versions mx a c \<le> 0" by (rule trans)
  next
    fix mx
    show "compare_versions mx ''1.2'' ''1.2.0'' = 0" using examples by blast
    show "compare_versions mx ''2.0'' ''1.9.9'' > 0" using examples by blast
    show "compare_versions mx ''1.2'' ''1.10'' < 0" using examples by blast
    show "parse_version mx ''v1.02.3-beta4'' = [1, 2, 3, 4]" using examples by blast
  qed
qed

theorem compare_versions_total_order_witness:
  "version_text ''v'' [(0, 1, ''.''), (1, 2, ''-rc'')] = ''v1.02-rc'' \<and>
   version_text [] [(0, 1, ''.''), (0, 10, [])] = ''1.10'' \<and>
   parse_version default_max_str_digits ''v1.02-rc'' = [1, 2] \<and>
   compare_versions default_max_str_digits ''v1.02-rc'' ''1.10'' = compare_components [1, 2] [1, 10] \<and>
   compare_components [1, 2] [1, 10] = - 1 \<and>
   compare_versions default_max_str_digits ''1.2'' ''1.2.0'' \<le> 0 \<and>
   compare_versions default_max_str_digits ''1.2.0'' ''2.0'' \<le> 0 \<and>
   compare_versions default_max_str_digits ''1.2'' ''2.0'' \<le> 0"
proof -
  let ?g1 = "[(0, 1, ''.''), (1, 2, ''-rc'')] :: (nat \<times> nat \<times> string) list"
  let ?g2 = "[(0, 1, ''.''), (0, 10, [])] :: (nat \<times> nat \<times> string) list"
  let ?mx = default_max_str_digits
  have ten: "decimal 10 = ''10''"
    by (subst decimal.simps) (simp add: decimal_digit digit_char_def)
  have t1: "version_text ''v'' ?g1 = ''v1.02-rc''"
    by (simp add: version_text_def group_text_def decimal_digit digit_char_def)
  have t2: "version_text [] ?g2 = ''1.10''"
    by (simp add: version_text_def group_text_def decimal_digit digit_char_def ten)
  have w1: "no_digit ''v'' \<and> well_separated ?g1"
    by (simp add: no_digit_def is_digit_def)
  have w2: "no_digit [] \<and> well_separated ?g2"
    by (simp add: no_digit_def is_digit_def)
  have c1: "convertible ?mx ?g1"
    by (simp add: convertible_def group_digits_def decimal_digit str_digits_check_threshold_def)
  have c2: "convertible ?mx ?g2"
    by (simp add: convertible_def group_digits_def ten decimal_digit str_digits_check_threshold_def)
  have parse: "parse_version ?mx (version_text ''v'' ?g1)
               = (if convertible ?mx ?g1 then map (\<lambda>g. int (group_value g)) ?g1 else [0])"
    by (rule compare_versions_total_order
        [THEN conjunct2, THEN conjunct1, rule_format, OF w1])
  have cmp: "compare_versions ?mx (version_text ''v'' ?g1) (version_text [] ?g2)
             = compare_components (map group_value ?g1) (map group_value ?g2)"
    using compare_versions_total_order
        [THEN conjunct2, THEN conjunct2, THEN conjunct1, rule_format,
         where ?mx = "?mx" and ?pre1.0 = "''v''" and ?groups1.0 = "?g1"
           and ?pre2.0 = "[]" and ?groups2.0 = "?g2"]
      w1 w2 c1 c2 by blast
  have h1: "compare_versions ?mx ''1.2'' ''1.2.0'' \<le> 0"
    by (simp add: compare_versions_parts parse_version_examples compare_parts_examples)
  have h2: "compare_versions ?mx ''1.2.0'' ''2.0'' \<le> 0"
    by (simp add: compare_versions_parts parse_version_examples compare_parts_examples)
  have trans: "compare_versions ?mx ''1.2'' ''2.0'' \<le> 0"
    using compare_versions_total_order
        [THEN conjunct2, THEN conjunct2, THEN conjunct2, THEN conjunct2, THEN conjunct2,
         THEN conjunct2, THEN conjunct1, rule_format,
         where ?mx = "?mx" and ?a = "''1.2''" and ?b = "''1.2.0''" and ?c = "''2.0''"]
      h1 h2 by blast
  have spec: "compare_components [1, 2] [1, 10] = - 1"
    by (simp add: compare_components_def zero_pad_def)
  have p: "parse_version ?mx ''v1.02-rc'' = [1, 2]"
    using parse c1 unfolding t1 by (simp add: group_value_def)
  have c: "compare_versions ?mx ''v1.02-rc'' ''1.10'' = compare_components [1, 2] [1, 10]"
    using cmp unfolding t1 t2 by (simp add: group_value_def)
  show ?thesis using t1 t2 p c spec h1 h2 trans by blast
qed
section \<open>The command matcher returns the first plugin that passes the four filters\<close>

lemma str_contains_iff: "str_contains sub s \<longleftrightarrow> (\<exists>before after. s = before @ sub @ after)"
proof (induction s)
  case Nil
  show ?case by auto
next
  case (Cons c cs)
  have "take (length sub) (c # cs) = sub \<longleftrightarrow> (\<exists>after. c # cs = sub @ after)"
    by (metis append_eq_conv_conj append_take_drop_id)
  moreover have "(\<exists>before after. c # cs = before @ sub @ after)
      \<longleftrightarrow> (\<exists>after. c # cs = sub @ after) \<or> (\<exists>before after. cs = before @ sub @ after)"
  proof
    assume "\<exists>before after. c # cs = before @ sub @ after"
    then obtain before after where e: "c # cs = before @ sub @ after" by blast
    show "(\<exists>after. c # cs = sub @ after) \<or> (\<exists>before after. cs = before @ sub @ after)"
    proof (cases before)
      case Nil
      then show ?thesis using e by auto
    next
      case (Cons b bs)
      then have "cs = bs @ sub @ after" using e by simp
      then show ?thesis by blast
    qed
  next
    assume "(\<exists>after. c # cs = sub @ after) \<or> (\<exists>before after. cs = before @ sub @ after)"
    then show "\<exists>before after. c # cs = before @ sub @ after"
    proof
      assume "\<exists>after. c # cs = sub @ after"
      then obtain after where "c # cs = [] @ sub @ after" by auto
      then show ?thesis by blast
    next
      assume "\<exists>before after. cs = before @ sub @ after"
      then obtain before after where "c # cs = (c # before) @ sub @ after" by auto
      then show ?thesis by blast
    qed
  qed
  ultimately show ?case using Cons.IH by simp
qed

lemma matcher_step:
  "get_matched_plugin m (p # reg) raw ct sid ab =
     (if passes_filters m raw ct sid ab p then Some p
      else get_matched_plugin m reg raw ct sid ab)"
proof -
  have "([cmd \<leftarrow> commands p. str_contains cmd raw] \<noteq> [])
        \<longleftrightarrow> (\<exists>cmd \<in> set (commands p). \<exists>before after. raw = before @ cmd @ after)"
    by (simp add: filter_empty_conv str_contains_iff)
  then show ?thesis
    by (cases "is_at_required p") (auto simp: passes_filters_def)
qed

lemma matcher_some_iff:
  "get_matched_plugin m reg raw ct sid ab = Some p \<longleftrightarrow>
     (\<exists>i < length reg. reg ! i = p \<and> passes_filters m raw ct sid ab p \<and>
        (\<forall>j < i. \<not> passes_filters m raw ct sid ab (reg ! j)))"
proof (induction reg)
  case Nil
  show ?case by simp
next
  case (Cons q reg)
  show ?case
  proof (cases "passes_filters m raw ct sid ab q")
    case True
    have "(\<exists>i < length (q # reg). (q # reg) ! i = p \<and> passes_filters m raw ct sid ab p \<and>
        (\<forall>j < i. \<not> passes_filters m raw ct sid ab ((q # reg) ! j))) \<longleftrightarrow> q = p"
    proof
      assume "\<exists>i < length (q # reg). (q # reg) ! i = p \<and> passes_filters m raw ct sid ab p \<and>
        (\<forall>j < i. \<not> passes_filters m raw ct sid ab ((q # reg) ! j))"
      then obtain i where i: "(q # reg) ! i = p"
        "\<forall>j < i. \<not> passes_filters m raw ct sid ab ((q # reg) ! j)" by blast
      have "i = 0"
      proof (rule ccontr)
        assume "i \<noteq> 0"
        then have "\<not> passes_filters m raw ct sid ab ((q # reg) ! 0)" using i(2) by blast
        then show False using True by simp
      qed
      then show "q = p" using i(1) by simp
    next
      assume "q = p"
      then show "\<exists>i < length (q # reg). (q # reg) ! i = p \<and> passes_filters m raw ct sid ab p \<and>
        (\<forall>j < i. \<not> passes_filters m raw ct sid ab ((q # reg) ! j))"
        using True by (intro exI [of _ 0]) simp
    qed
    then show ?thesis using True by (simp only: matcher_step if_True option.inject)
  next
    case False
    have "(\<exists>i < length (q # reg). (q # reg) ! i = p \<and> passes_filters m raw ct sid ab p \<and>
        (\<forall>j < i. \<not> passes_filters m raw ct sid ab ((q # reg) ! j)))
      \<longleftrightarrow> (\<exists>i < length reg. reg ! i = p \<and> passes_filters m raw ct sid ab p \<and>
        (\<forall>j < i. \<not> passes_filters m raw ct sid ab (reg ! j)))"
    proof
      assume "\<exists>i < length (q # reg). (q # reg) ! i = p \<and> passes_filters m raw ct sid ab p \<and>
        (\<forall>j < i. \<not> passes_filters m raw ct sid ab ((q # reg) ! j))"
      then obtain i where i: "i < length (q # reg)" "(q # reg) ! i = p"
        "passes_filters m raw ct sid ab p"
        "\<forall>j < i. \<not> passes_filters m raw ct sid ab ((q # reg) ! j)" by blast
      from i(2,3) False have "i \<noteq> 0" by (cases i) auto
      then obtain k where k: "i = Suc k" by (cases i) auto
      have "\<forall>j < k. \<not> passes_filters m raw ct sid ab (reg ! j)"
      proof (intro allI impI)
        fix j assume "j < k"
        then have "Suc j < i" using k by simp
        then have "\<not> passes_filters m raw ct sid ab ((q # reg) ! Suc j)" using i(4) by blast
        then show "\<not> passes_filters m raw ct sid ab (reg ! j)" by simp
      qed
      then show "\<exists>i < length reg. reg ! i = p \<and> passes_filters m raw ct sid ab p \<and>
        (\<forall>j < i. \<not> passes_filters m raw ct sid ab (reg ! j))"
        using i k by (intro exI [of _ k]) simp
    next
      assume "\<exists>i < length reg. reg ! i = p \<and> passes_filters m raw ct sid ab p \<and>
        (\<forall>j < i. \<not> passes_filters m raw ct sid ab (reg ! j))"
      then obtain k where k: "k < length reg" "reg ! k = p" "passes_filters m raw ct sid ab p"
        "\<forall>j < k. \<not> passes_filters m raw ct sid ab (reg ! j)" by blast
      have "\<forall>j < Suc k. \<not> passes_filters m raw ct sid ab ((q # reg) ! j)"
      proof (intro allI impI)
        fix j assume j: "j < Suc k"
        show "\<not> passes_filters m raw ct sid ab ((q # reg) ! j)"
          using j k(4) False by (cases j) auto
      qed
      then show "\<exists>i < length (q # reg). (q # reg) ! i = p \<and> passes_filters m raw ct sid ab p \<and>
        (\<forall>j < i. \<not> passes_filters m raw ct sid ab ((q # reg) ! j))"
        using k by (intro exI [of _ "Suc k"]) simp
    qed
    then show ?thesis using False Cons.IH by (simp only: matcher_step if_False)
  qed
qed

lemma matcher_none_iff:
  "get_matched_plugin m reg raw ct sid ab = None \<longleftrightarrow>
     (\<forall>p \<in> set reg. \<not> passes_filters m raw ct sid ab p)"
  by (induction reg) (simp_all only: matcher_step get_matched_plugin.simps list.set
      ball_empty ball_simps split: if_splits, auto)

text \<open>
  Claim C5.  For every registry, raw text, chat scope, caller id and mention flag:
  the matcher returns a plugin exactly when that plugin is the first entry of the
  registry, in registration order, that passes the four filters (scope, master-only
  permission, group mention, trigger substring); it returns no plugin exactly when no
  entry passes; and a plugin whose permission is \<open>master\<close> is never returned to a
  caller other than the configured master.
\<close>

theorem get_matched_plugin_first_match:
  "(get_matched_plugin master entries raw_msg ctype sender_id is_at_bot = Some plugin \<longleftrightarrow>
      (\<exists>i < length entries. entries ! i = plugin \<and>
         passes_filters master raw_msg ctype sender_id is_at_bot plugin \<and>
         (\<forall>j < i. \<not> passes_filters master raw_msg ctype sender_id is_at_bot (entries ! j)))) \<and>
   (get_matched_plugin master entries raw_msg ctype sender_id is_at_bot = None \<longleftrightarrow>
      (\<forall>p \<in> set entries. \<not> passes_filters master raw_msg ctype sender_id is_at_bot p)) \<and>
   (get_matched_plugin master entries raw_msg ctype sender_id is_at_bot = Some plugin \<and>
      permission plugin = ''master'' \<longrightarrow> sender_id = master)"
proof (intro conjI)
  show "get_matched_plugin master entries raw_msg ctype sender_id is_at_bot = Some plugin \<longleftrightarrow>
      (\<exists>i < length entries. entries ! i = plugin \<and>
         passes_filters master raw_msg ctype sender_id is_at_bot plugin \<and>
         (\<forall>j < i. \<not> passes_filters master raw_msg ctype sender_id is_at_bot (entries ! j)))"
    by (rule matcher_some_iff)
  show "get_matched_plugin master entries raw_msg ctype sender_id is_at_bot = None \<longleftrightarrow>
      (\<forall>p \<in> set entries. \<not> passes_filters master raw_msg ctype sender_id is_at_bot p)"
    by (rule matcher_none_iff)
  show "get_matched_plugin master entries raw_msg ctype sender_id is_at_bot = Some plugin \<and>
      permission plugin = ''master'' \<longrightarrow> sender_id = master"
    using matcher_some_iff [of master entries raw_msg ctype sender_id is_at_bot plugin]
    by (auto simp: passes_filters_def)
qed

theorem get_matched_plugin_first_match_witness:
  "get_matched_plugin ''192004908'' [example_plugin_M, example_plugin_A]
      ''say foo please'' ''group'' ''10001'' False = Some example_plugin_A \<and>
   (\<exists>i < length [example_plugin_M, example_plugin_A].
       [example_plugin_M, example_plugin_A] ! i = example_plugin_A \<and>
       passes_filters ''192004908'' ''say foo please'' ''group'' ''10001'' False example_plugin_A \<and>
       (\<forall>j < i. \<not> passes_filters ''192004908'' ''say foo please'' ''group'' ''10001'' False
                    ([example_plugin_M, example_plugin_A] ! j))) \<and>
   get_matched_plugin ''192004908'' [example_plugin_M, example_plugin_A]
      ''bar'' ''group'' ''10001'' False = None \<and>
   \<not> passes_filters ''192004908'' ''bar'' ''group'' ''10001'' False example_plugin_M \<and>
   \<not> passes_filters ''192004908'' ''bar'' ''group'' ''10001'' False example_plugin_A \<and>
   get_matched_plugin ''192004908'' [example_plugin_M, example_plugin_A]
      ''foo'' ''private'' ''192004908'' True = Some example_plugin_M \<and>
   permission example_plugin_M = ''master''"
proof -
  have h1: "get_matched_plugin ''192004908'' [example_plugin_M, example_plugin_A]
      ''say foo please'' ''group'' ''10001'' False = Some example_plugin_A"
    by (simp add: example_plugin_A_def example_plugin_M_def)
  have h2: "get_matched_plugin ''192004908'' [example_plugin_M, example_plugin_A]
      ''bar'' ''group'' ''10001'' False = None"
    by (simp add: example_plugin_A_def example_plugin_M_def)
  have h3: "get_matched_plugin ''192004908'' [example_plugin_M, example_plugin_A]
      ''foo'' ''private'' ''192004908'' True = Some example_plugin_M"
    by (simp add: example_plugin_A_def example_plugin_M_def)
  have h4: "permission example_plugin_M = ''master''" by (simp add: example_plugin_M_def)
  note t1 = get_matched_plugin_first_match [of "''192004908''" "[example_plugin_M, example_plugin_A]"
      "''say foo please''" "''group''" "''10001''" False example_plugin_A]
  note t2 = get_matched_plugin_first_match [of "''192004908''" "[example_plugin_M, example_plugin_A]"
      "''bar''" "''group''" "''10001''" False example_plugin_A]
  from t1 h1 have c1: "\<exists>i < length [example_plugin_M, example_plugin_A].
       [example_plugin_M, example_plugin_A] ! i = example_plugin_A \<and>
       passes_filters ''192004908'' ''say foo please'' ''group'' ''10001'' False example_plugin_A \<and>
       (\<forall>j < i. \<not> passes_filters ''192004908'' ''say foo please'' ''group'' ''10001'' False
                    ([example_plugin_M, example_plugin_A] ! j))"
    by blast
  from t2 h2 have c2: "\<forall>p \<in> set [example_plugin_M, example_plugin_A].
       \<not> passes_filters ''192004908'' ''bar'' ''group'' ''10001'' False p"
    by blast
  from c2 have c3: "\<not> passes_filters ''192004908'' ''bar'' ''group'' ''10001'' False example_plugin_M"
    and c4: "\<not> passes_filters ''192004908'' ''bar'' ''group'' ''10001'' False example_plugin_A"
    by simp_all
  show ?thesis using h1 h2 h3 h4 c1 c3 c4 by blast
qed

section \<open>Cycle detection: the depth bound, soundness and completeness\<close>

lemma dfs_frame:
  "check_circular_dependency n g nm st = Some (f, st') \<Longrightarrow>
     visited st \<subseteq> visited st' \<and> nm \<in> visited st' \<and>
     (\<not> f \<longrightarrow> path st' = path st \<and> errors st' = errors st)"
  "check_dependencies n g deps st = Some (f, st') \<Longrightarrow>
     visited st \<subseteq> visited st' \<and>
     (\<not> f \<longrightarrow> path st' = path st \<and> errors st' = errors st)"
proof (induction n g nm st and n g deps st arbitrary: f st' and f st'
    rule: check_circular_dependency_check_dependencies.induct)
  case (1 g plugin_name st)
  then show ?case by simp
next
  case (2 depth g plugin_name st)
  show ?case
  proof (cases "map_of g plugin_name")
    case None
    then show ?thesis using "2.prems" by (auto simp: Let_def)
  next
    case (Some deps)
    let ?st1 = "st\<lparr>visited := insert plugin_name (visited st), path := path st @ [plugin_name]\<rparr>"
    from "2.prems" Some obtain f2 st2 where
      loop: "check_dependencies depth g deps ?st1 = Some (f2, st2)"
      by (auto simp: Let_def split: option.splits)
    note IH = "2.IH" [OF refl Some loop]
    show ?thesis
      using "2.prems" Some loop IH by (auto simp: Let_def split: if_splits)
  qed
next
  case (3 depth g st)
  then show ?case by simp
next
  case (4 depth g dependency rest st)
  show ?case
  proof (cases "dependency \<notin> visited st")
    case True
    from "4.prems" True obtain f1 st1 where
      inner: "check_circular_dependency depth g dependency st = Some (f1, st1)"
      by (auto split: option.splits)
    note IH1 = "4.IH"(1) [OF True inner]
    show ?thesis
    proof (cases f1)
      case True
      then show ?thesis using "4.prems" \<open>dependency \<notin> visited st\<close> inner IH1 by auto
    next
      case False
      then have rest: "check_dependencies depth g rest st1 = Some (f, st')"
        using "4.prems" \<open>dependency \<notin> visited st\<close> inner by simp
      note IH2 = "4.IH"(2) [OF \<open>dependency \<notin> visited st\<close> inner refl False rest]
      show ?thesis using IH1 IH2 False by auto
    qed
  next
    case False
    show ?thesis
    proof (cases "dependency \<in> set (path st)")
      case True
      then show ?thesis using "4.prems" False by (auto simp: Let_def)
    next
      case nip: False
      then have rest: "check_dependencies depth g rest st = Some (f, st')"
        using "4.prems" False by simp
      show ?thesis using "4.IH"(3) [OF False nip rest] by simp
    qed
  qed
qed

lemma dfs_depth_enough:
  "nm \<notin> visited st \<Longrightarrow> card (fst ` set g - visited st) < n \<Longrightarrow>
     check_circular_dependency n g nm st \<noteq> None"
  "card (fst ` set g - visited st) < n \<Longrightarrow> check_dependencies n g deps st \<noteq> None"
proof (induction n g nm st and n g deps st
    rule: check_circular_dependency_check_dependencies.induct)
  case (1 g plugin_name st)
  then show ?case by simp
next
  case (2 depth g plugin_name st)
  show ?case
  proof (cases "map_of g plugin_name")
    case None
    then show ?thesis by (simp add: Let_def)
  next
    case (Some deps)
    let ?st1 = "st\<lparr>visited := insert plugin_name (visited st), path := path st @ [plugin_name]\<rparr>"
    have key: "plugin_name \<in> fst ` set g"
      using Some by (metis map_of_eq_None_iff option.distinct(1))
    have "fst ` set g - visited ?st1 \<subset> fst ` set g - visited st"
      using key "2.prems"(1) by auto
    then have "card (fst ` set g - visited ?st1) < card (fst ` set g - visited st)"
      by (intro psubset_card_mono) auto
    then have "card (fst ` set g - visited ?st1) < depth" using "2.prems"(2) by simp
    then have "check_dependencies depth g deps ?st1 \<noteq> None"
      by (rule "2.IH" [OF refl Some])
    then show ?thesis using Some by (auto simp: Let_def split: option.splits)
  qed
next
  case (3 depth g st)
  then show ?case by simp
next
  case (4 depth g dependency rest st)
  show ?case
  proof (cases "dependency \<notin> visited st")
    case True
    have "check_circular_dependency depth g dependency st \<noteq> None"
      by (rule "4.IH"(1) [OF True True "4.prems"])
    then obtain f1 st1 where
      inner: "check_circular_dependency depth g dependency st = Some (f1, st1)"
      by (cases "check_circular_dependency depth g dependency st") auto
    show ?thesis
    proof (cases f1)
      case True
      then show ?thesis using \<open>dependency \<notin> visited st\<close> inner by simp
    next
      case False
      have "visited st \<subseteq> visited st1" using dfs_frame(1) [OF inner] by simp
      then have "card (fst ` set g - visited st1) \<le> card (fst ` set g - visited st)"
        by (intro card_mono) auto
      then have "card (fst ` set g - visited st1) < depth" using "4.prems" by simp
      then have "check_dependencies depth g rest st1 \<noteq> None"
        by (rule "4.IH"(2) [OF \<open>dependency \<notin> visited st\<close> inner refl False])
      then show ?thesis using \<open>dependency \<notin> visited st\<close> inner False by simp
    qed
  next
    case False
    show ?thesis
    proof (cases "dependency \<in> set (path st)")
      case True
      then show ?thesis using False by (simp add: Let_def)
    next
      case nip: False
      have "check_dependencies depth g rest st \<noteq> None"
        by (rule "4.IH"(3) [OF False nip "4.prems"])
      then show ?thesis using False nip by simp
    qed
  qed
qed

lemma dfs_top_level_returns:
  "\<exists>f st'. check_circular_dependency (Suc (length g)) g nm
              \<lparr>visited = {}, path = [], errors = lg\<rparr> = Some (f, st')"
proof -
  have "card (fst ` set g) \<le> length g"
    by (metis card_image_le card_length le_trans List.finite_set)
  then have "card (fst ` set g - visited \<lparr>visited = {}, path = [], errors = lg\<rparr>) < Suc (length g)"
    by simp
  then have "check_circular_dependency (Suc (length g)) g nm
              \<lparr>visited = {}, path = [], errors = lg\<rparr> \<noteq> None"
    by (intro dfs_depth_enough(1)) simp_all
  then show ?thesis by (cases "check_circular_dependency (Suc (length g)) g nm
              \<lparr>visited = {}, path = [], errors = lg\<rparr>") auto
qed
lemma closed_reach:
  assumes "\<forall>a \<in> S. \<forall>b. edge g a b \<longrightarrow> b \<in> S" and "(c, x) \<in> (edges g)\<^sup>*" and "c \<in> S"
  shows "x \<in> S"
  using assms(2,3)
proof (induction rule: rtrancl_induct)
  case base
  then show ?case by simp
next
  case (step y z)
  then have "y \<in> S" by simp
  moreover have "edge g y z" using step.hyps(2) by (simp add: edges_def)
  ultimately show ?case using assms(1) by blast
qed

lemma closed_acyclic_insert:
  assumes "closed_acyclic g S" and "a \<notin> S" and "\<forall>b. edge g a b \<longrightarrow> b \<in> S"
  shows "closed_acyclic g (insert a S)"
proof -
  have cl: "\<forall>x \<in> S. \<forall>b. edge g x b \<longrightarrow> b \<in> S" using assms(1) by (simp add: closed_acyclic_def)
  have "(a, a) \<notin> (edges g)\<^sup>+"
  proof
    assume "(a, a) \<in> (edges g)\<^sup>+"
    then obtain c where c: "(a, c) \<in> edges g" "(c, a) \<in> (edges g)\<^sup>*"
      by (meson tranclD)
    then have "c \<in> S" using assms(3) by (simp add: edges_def)
    then have "a \<in> S" using closed_reach [OF cl c(2)] by simp
    then show False using assms(2) by simp
  qed
  then show ?thesis using assms by (auto simp: closed_acyclic_def)
qed

lemma dfs_finished:
  "check_circular_dependency n g nm st = Some (False, st') \<Longrightarrow> nm \<notin> visited st \<Longrightarrow>
     set (path st) \<subseteq> visited st \<Longrightarrow> closed_acyclic g (finished st) \<Longrightarrow>
     closed_acyclic g (finished st') \<and> nm \<in> finished st' \<and> finished st \<subseteq> finished st'"
  "check_dependencies n g deps st = Some (False, st') \<Longrightarrow>
     set (path st) \<subseteq> visited st \<Longrightarrow> closed_acyclic g (finished st) \<Longrightarrow>
     closed_acyclic g (finished st') \<and> set deps \<subseteq> finished st' \<and> finished st \<subseteq> finished st'"
proof (induction n g nm st and n g deps st arbitrary: st' and st'
    rule: check_circular_dependency_check_dependencies.induct)
  case (1 g plugin_name st)
  then show ?case by simp
next
  case (2 depth g plugin_name st)
  let ?st1 = "st\<lparr>visited := insert plugin_name (visited st), path := path st @ [plugin_name]\<rparr>"
  have fin1: "finished ?st1 = finished st"
    using "2.prems"(2) by (auto simp: finished_def)
  have notin: "plugin_name \<notin> set (path st)" using "2.prems"(2,3) by auto
  show ?case
  proof (cases "map_of g plugin_name")
    case None
    then have st': "visited st' = insert plugin_name (visited st)" "path st' = path st"
      using "2.prems"(1) by (auto simp: Let_def)
    have fin': "finished st' = insert plugin_name (finished st)"
      using notin by (auto simp: st' finished_def)
    have "plugin_name \<notin> finished st" using "2.prems"(2) by (simp add: finished_def)
    moreover have "\<forall>b. edge g plugin_name b \<longrightarrow> b \<in> finished st"
      using None by (simp add: edge_def)
    ultimately have "closed_acyclic g (insert plugin_name (finished st))"
      using closed_acyclic_insert "2.prems"(4) by blast
    then show ?thesis by (auto simp: fin')
  next
    case (Some deps)
    from "2.prems"(1) Some obtain st2 where
      loop: "check_dependencies depth g deps ?st1 = Some (False, st2)"
      and st': "st' = st2\<lparr>path := butlast (path st2)\<rparr>"
      by (auto simp: Let_def split: option.splits if_splits)
    have sub1: "set (path ?st1) \<subseteq> visited ?st1" using "2.prems"(3) by auto
    have ca1: "closed_acyclic g (finished ?st1)" using "2.prems"(4) fin1 by simp
    note IH = "2.IH" [OF refl Some loop sub1 ca1]
    have frame: "visited ?st1 \<subseteq> visited st2" "path st2 = path ?st1"
      using dfs_frame(2) [OF loop] by simp_all
    have fin2: "finished st2 = visited st2 - insert plugin_name (set (path st))"
      by (auto simp: finished_def frame(2))
    have fin': "finished st' = insert plugin_name (finished st2)"
      using notin frame(1) by (auto simp: st' finished_def frame(2))
    have "plugin_name \<notin> finished st2" by (simp add: fin2)
    moreover have "\<forall>b. edge g plugin_name b \<longrightarrow> b \<in> finished st2"
      using Some IH by (auto simp: edge_def)
    ultimately have "closed_acyclic g (insert plugin_name (finished st2))"
      using closed_acyclic_insert IH by blast
    then show ?thesis using IH fin1 by (auto simp: fin')
  qed
next
  case (3 depth g st)
  then show ?case by simp
next
  case (4 depth g dependency rest st)
  show ?case
  proof (cases "dependency \<notin> visited st")
    case True
    from "4.prems"(1) True obtain st1 where
      inner: "check_circular_dependency depth g dependency st = Some (False, st1)"
      and rest: "check_dependencies depth g rest st1 = Some (False, st')"
      by (auto split: option.splits if_splits)
    note IH1 = "4.IH"(1) [OF True inner True "4.prems"(2,3)]
    have frame: "visited st \<subseteq> visited st1" "path st1 = path st"
      using dfs_frame(1) [OF inner] by simp_all
    have sub1: "set (path st1) \<subseteq> visited st1" using "4.prems"(2) frame by auto
    have ca1: "closed_acyclic g (finished st1)" using IH1 by simp
    note IH2 = "4.IH"(2) [OF True inner refl _ rest sub1 ca1]
    show ?thesis using IH1 IH2 by auto
  next
    case False
    show ?thesis
    proof (cases "dependency \<in> set (path st)")
      case True
      then show ?thesis using "4.prems"(1) False by (simp add: Let_def)
    next
      case nip: False
      then have rest: "check_dependencies depth g rest st = Some (False, st')"
        using "4.prems"(1) False by simp
      note IH3 = "4.IH"(3) [OF False nip rest "4.prems"(2,3)]
      have "dependency \<in> finished st" using False nip by (simp add: finished_def)
      then show ?thesis using IH3 by auto
    qed
  qed
qed

lemma dfs_no_cycle_through:
  assumes "check_circular_dependency n g nm \<lparr>visited = {}, path = [], errors = lg\<rparr> = Some (False, st')"
  shows "(nm, nm) \<notin> (edges g)\<^sup>+"
proof -
  have "closed_acyclic g (finished \<lparr>visited = {}, path = [], errors = lg\<rparr>)"
    by (simp add: closed_acyclic_def finished_def)
  then have "closed_acyclic g (finished st') \<and> nm \<in> finished st'"
    using dfs_finished(1) [OF assms] by simp
  then show ?thesis by (auto simp: closed_acyclic_def)
qed
lemma join_snoc: "xs \<noteq> [] \<Longrightarrow> join sep (xs @ [y]) = join sep xs @ sep @ y"
  by (induction sep xs rule: join.induct) simp_all

lemma index_of_drop: "x \<in> set xs \<Longrightarrow> \<exists>ys. drop (index_of x xs) xs = x # ys"
  by (induction xs) auto

lemma chain_tl: "chain g (a # xs) \<Longrightarrow> chain g xs"
  by (cases xs) simp_all

lemma chain_drop: "chain g xs \<Longrightarrow> chain g (drop k xs)"
proof (induction k arbitrary: xs)
  case 0
  then show ?case by simp
next
  case (Suc k)
  then show ?case by (cases xs) (auto dest: chain_tl)
qed

lemma chain_snoc: "chain g (xs @ [d]) \<longleftrightarrow> chain g xs \<and> (xs = [] \<or> edge g (last xs) d)"
proof (induction g xs rule: chain.induct)
  case (1 g)
  show ?case by simp
next
  case (2 g a)
  show ?case by simp
next
  case (3 g a b rest)
  then show ?case by auto
qed

lemma path_cycle:
  assumes "d \<in> set p" and "distinct p" and "chain g p" and "edge g (last p) d"
  shows "is_simple_cycle g (drop (index_of d p) p @ [d]) \<and>
         join '' -> '' (drop (index_of d p) p) @ '' -> '' @ d
           = render_cycle (drop (index_of d p) p @ [d])"
proof -
  obtain ys where ys: "drop (index_of d p) p = d # ys"
    using index_of_drop [OF assms(1)] by blast
  have ne: "p \<noteq> []" using assms(1) by auto
  have "last (drop (index_of d p) p) = last p"
    using ys by (metis drop_eq_Nil last_drop list.distinct(1) not_le_imp_less)
  then have e: "edge g (last (d # ys)) d" using assms(4) ys by simp
  have "chain g (d # ys)" using chain_drop [OF assms(3), of "index_of d p"] ys by simp
  then have ch: "chain g ((d # ys) @ [d])" using e by (subst chain_snoc) simp
  have di: "distinct (d # ys)" using assms(2) ys by (metis distinct_drop)
  have "is_simple_cycle g ((d # ys) @ [d])"
    using ch di by (simp add: is_simple_cycle_def is_cycle_def butlast_append)
  moreover have "join '' -> '' (d # ys) @ '' -> '' @ d = render_cycle ((d # ys) @ [d])"
    unfolding render_cycle_def by (rule join_snoc [symmetric]) simp
  ultimately show ?thesis by (simp add: ys)
qed

lemma dfs_sound:
  "check_circular_dependency n g nm st = Some (True, st') \<Longrightarrow> nm \<notin> visited st \<Longrightarrow>
     set (path st) \<subseteq> visited st \<Longrightarrow> distinct (path st) \<Longrightarrow> chain g (path st @ [nm]) \<Longrightarrow>
     \<exists>c. errors st' = errors st @ [CircularDependency (render_cycle c)] \<and> is_simple_cycle g c"
  "check_dependencies n g deps st = Some (True, st') \<Longrightarrow>
     set (path st) \<subseteq> visited st \<Longrightarrow> distinct (path st) \<Longrightarrow> chain g (path st) \<Longrightarrow>
     path st \<noteq> [] \<Longrightarrow> \<forall>d \<in> set deps. edge g (last (path st)) d \<Longrightarrow>
     \<exists>c. errors st' = errors st @ [CircularDependency (render_cycle c)] \<and> is_simple_cycle g c"
proof (induction n g nm st and n g deps st arbitrary: st' and st'
    rule: check_circular_dependency_check_dependencies.induct)
  case (1 g plugin_name st)
  then show ?case by simp
next
  case (2 depth g plugin_name st)
  let ?st1 = "st\<lparr>visited := insert plugin_name (visited st), path := path st @ [plugin_name]\<rparr>"
  show ?case
  proof (cases "map_of g plugin_name")
    case None
    then show ?thesis using "2.prems"(1) by (simp add: Let_def)
  next
    case (Some deps)
    from "2.prems"(1) Some have
      loop: "check_dependencies depth g deps ?st1 = Some (True, st')"
      by (auto simp: Let_def split: option.splits if_splits)
    have a: "set (path ?st1) \<subseteq> visited ?st1" using "2.prems"(3) by auto
    have b: "distinct (path ?st1)" using "2.prems"(2,3,4) by auto
    have c: "chain g (path ?st1)" using "2.prems"(5) by simp
    have d: "path ?st1 \<noteq> []" by simp
    have e: "\<forall>d \<in> set deps. edge g (last (path ?st1)) d" using Some by (simp add: edge_def)
    from "2.IH" [OF refl Some loop a b c d e] show ?thesis by simp
  qed
next
  case (3 depth g st)
  then show ?case by simp
next
  case (4 depth g dependency rest st)
  have e_dep: "edge g (last (path st)) dependency" using "4.prems"(6) by simp
  have e_rest: "\<forall>d \<in> set rest. edge g (last (path st)) d" using "4.prems"(6) by simp
  show ?case
  proof (cases "dependency \<notin> visited st")
    case True
    from "4.prems"(1) True obtain f1 st1 where
      inner: "check_circular_dependency depth g dependency st = Some (f1, st1)"
      by (auto split: option.splits)
    show ?thesis
    proof (cases f1)
      case t: True
      then have st1: "st1 = st'" using "4.prems"(1) True inner by simp
      have ch: "chain g (path st @ [dependency])"
        using "4.prems"(4,5) e_dep by (simp add: chain_snoc)
      have inner': "check_circular_dependency depth g dependency st = Some (True, st')"
        using inner t st1 by simp
      from "4.IH"(1) [OF True inner' True "4.prems"(2,3) ch]
      show ?thesis .
    next
      case f: False
      then have rest: "check_dependencies depth g rest st1 = Some (True, st')"
        using "4.prems"(1) True inner by simp
      have frame: "visited st \<subseteq> visited st1" "path st1 = path st" "errors st1 = errors st"
        using dfs_frame(1) [OF inner] f by simp_all
      have a: "set (path st1) \<subseteq> visited st1" using "4.prems"(2) frame by auto
      from "4.IH"(2) [OF True inner refl f rest a] "4.prems"(3,4,5) e_rest frame
      show ?thesis by simp
    qed
  next
    case False
    show ?thesis
    proof (cases "dependency \<in> set (path st)")
      case True
      then have "errors st' = errors st @ [CircularDependency
          (join '' -> '' (drop (index_of dependency (path st)) (path st)) @ '' -> '' @ dependency)]"
        using "4.prems"(1) False by (auto simp: Let_def)
      then show ?thesis
        using path_cycle [OF True "4.prems"(3,4) e_dep] by metis
    next
      case nip: False
      then have rest: "check_dependencies depth g rest st = Some (True, st')"
        using "4.prems"(1) False by simp
      from "4.IH"(3) [OF False nip rest "4.prems"(2,3,4,5) e_rest] show ?thesis .
    qed
  qed
qed
declare check_circular_dependency.simps [simp del] check_dependencies.simps [simp del]

lemma detect_cycles_returns: "\<exists>f lg'. detect_cycles g ks lg = Some (f, lg')"
proof (induction ks arbitrary: lg)
  case Nil
  show ?case by auto
next
  case (Cons k ks)
  obtain f st' where top: "check_circular_dependency (Suc (length g)) g k
      \<lparr>visited = {}, path = [], errors = lg\<rparr> = Some (f, st')"
    using dfs_top_level_returns by blast
  show ?case
  proof (cases f)
    case True
    then show ?thesis using top by auto
  next
    case False
    then show ?thesis using top Cons.IH [of "errors st'"] by auto
  qed
qed

lemma detect_cycles_found:
  "detect_cycles g ks lg = Some (True, lg') \<Longrightarrow>
     \<exists>c. lg' = lg @ [CircularDependency (render_cycle c), InitFailedCircular] \<and> is_simple_cycle g c"
proof (induction ks arbitrary: lg)
  case Nil
  then show ?case by simp
next
  case (Cons k ks)
  obtain f st' where top: "check_circular_dependency (Suc (length g)) g k
      \<lparr>visited = {}, path = [], errors = lg\<rparr> = Some (f, st')"
    using dfs_top_level_returns by blast
  show ?case
  proof (cases f)
    case True
    then have top': "check_circular_dependency (Suc (length g)) g k
      \<lparr>visited = {}, path = [], errors = lg\<rparr> = Some (True, st')" using top by simp
    have "\<exists>c. errors st' = errors \<lparr>visited = {}, path = [], errors = lg\<rparr>
              @ [CircularDependency (render_cycle c)] \<and> is_simple_cycle g c"
      by (rule dfs_sound(1) [OF top']) simp_all
    moreover have "lg' = errors st' @ [InitFailedCircular]"
      using Cons.prems top' by simp
    ultimately show ?thesis by auto
  next
    case False
    then have "errors st' = lg" using dfs_frame(1) [OF top] by simp
    moreover have "detect_cycles g ks (errors st') = Some (True, lg')"
      using Cons.prems top False by simp
    ultimately show ?thesis using Cons.IH by simp
  qed
qed

lemma detect_cycles_none:
  "detect_cycles g ks lg = Some (False, lg') \<Longrightarrow>
     lg' = lg \<and> (\<forall>k \<in> set ks. (k, k) \<notin> (edges g)\<^sup>+)"
proof (induction ks arbitrary: lg)
  case Nil
  then show ?case by simp
next
  case (Cons k ks)
  obtain f st' where top: "check_circular_dependency (Suc (length g)) g k
      \<lparr>visited = {}, path = [], errors = lg\<rparr> = Some (f, st')"
    using dfs_top_level_returns by blast
  have nf: "\<not> f" using Cons.prems top by (cases f) auto
  then have top': "check_circular_dependency (Suc (length g)) g k
      \<lparr>visited = {}, path = [], errors = lg\<rparr> = Some (False, st')" using top by simp
  have e: "errors st' = lg" using dfs_frame(1) [OF top] nf by simp
  have "detect_cycles g ks lg = Some (False, lg')" using Cons.prems top' e by simp
  then have "lg' = lg \<and> (\<forall>k \<in> set ks. (k, k) \<notin> (edges g)\<^sup>+)" by (rule Cons.IH)
  moreover have "(k, k) \<notin> (edges g)\<^sup>+" by (rule dfs_no_cycle_through [OF top'])
  ultimately show ?case by simp
qed

lemma chain_trancl: "chain g (a # b # rest) \<Longrightarrow> (a, last (b # rest)) \<in> (edges g)\<^sup>+"
proof (induction rest arbitrary: a b)
  case Nil
  then show ?case by (simp add: edges_def r_into_trancl')
next
  case (Cons x rest)
  then have "(a, b) \<in> edges g" and "(b, last (x # rest)) \<in> (edges g)\<^sup>+"
    by (simp_all add: edges_def)
  then show ?case by (simp add: trancl_into_trancl2)
qed

lemma cycle_through_key:
  assumes "is_cycle g c"
  shows "(hd c, hd c) \<in> (edges g)\<^sup>+ \<and> hd c \<in> set (map fst g)"
proof -
  from assms obtain a b rest where c: "c = a # b # rest"
    by (cases c; cases "tl c") (auto simp: is_cycle_def)
  have ch: "chain g (a # b # rest)" and hl: "a = last (b # rest)"
    using assms c by (auto simp: is_cycle_def)
  have "(a, a) \<in> (edges g)\<^sup>+" using chain_trancl [OF ch] hl by simp
  moreover have "edge g a b" using ch by simp
  then have "map_of g a \<noteq> None" by (auto simp: edge_def split: option.splits)
  then have "a \<in> fst ` set g" by (simp add: map_of_eq_None_iff)
  ultimately show ?thesis by (simp add: c)
qed

lemma cycle_found:
  assumes "is_cycle g c"
  shows "\<exists>lg'. detect_cycles g (map fst g) lg = Some (True, lg')"
proof -
  obtain f lg' where r: "detect_cycles g (map fst g) lg = Some (f, lg')"
    using detect_cycles_returns by blast
  have f
  proof (rule ccontr)
    assume "\<not> f"
    then have "detect_cycles g (map fst g) lg = Some (False, lg')" using r by simp
    then have "\<forall>k \<in> set (map fst g). (k, k) \<notin> (edges g)\<^sup>+"
      using detect_cycles_none by blast
    then show False using cycle_through_key [OF assms] by blast
  qed
  then show ?thesis using r by simp
qed

lemma simple_cycle_length:
  assumes "is_simple_cycle g c"
  shows "hd c = last c \<and> length c = card (set c) + 1"
proof -
  from assms obtain a b rest where c: "c = a # b # rest"
    by (cases c; cases "tl c") (auto simp: is_simple_cycle_def is_cycle_def)
  have hl: "a = last (b # rest)" and di: "distinct (a # butlast (b # rest))"
    using assms c by (auto simp: is_simple_cycle_def is_cycle_def)
  have "set (b # rest) = set (butlast (b # rest) @ [last (b # rest)])"
    by (simp only: append_butlast_last_id [of "b # rest"] list.distinct not_False_eq_True)
  then have "set (b # rest) = insert a (set (butlast (b # rest)))"
    using hl by simp
  then have "set c = set (a # butlast (b # rest))" using c by auto
  then have "card (set c) = length (a # butlast (b # rest))"
    using di distinct_card by metis
  then show ?thesis using hl c by simp
qed

text \<open>
  Claim C9.  When the dependency graph contains a cycle, the cycle check of \<^verbatim>\<open>init\<close>
  returns (it does not exhaust its depth) and reports a cycle: the error log receives
  the rendered path of a cycle, of the form \<open>A -> B -> C -> A\<close>, followed by the line
  that initialisation failed.  The reported list of names is a cycle of the graph
  (each name declares the next one as a dependency), its first and last names are
  equal, and no other name occurs twice, so that its length is the number of plugins on
  the cycle plus one.
\<close>

theorem cycle_path_reported:
  assumes "is_cycle g c"
  shows "\<exists>reported.
           detect_cycles g (map fst g) lg
             = Some (True, lg @ [CircularDependency (render_cycle reported), InitFailedCircular]) \<and>
           is_simple_cycle g reported \<and> hd reported = last reported \<and>
           length reported = card (set reported) + 1"
proof -
  obtain lg' where r: "detect_cycles g (map fst g) lg = Some (True, lg')"
    using cycle_found [OF assms] by blast
  then obtain reported where
    "lg' = lg @ [CircularDependency (render_cycle reported), InitFailedCircular]"
    "is_simple_cycle g reported"
    using detect_cycles_found by blast
  then show ?thesis using r simple_cycle_length by blast
qed
theorem cycle_path_reported_witness:
  "is_cycle example_cyclic_graph [''A'', ''B'', ''C'', ''A''] \<and>
   detect_cycles example_cyclic_graph (map fst example_cyclic_graph) []
     = Some (True, [CircularDependency ''A -> B -> C -> A'', InitFailedCircular]) \<and>
   (\<exists>reported.
       detect_cycles example_cyclic_graph (map fst example_cyclic_graph) []
         = Some (True, [] @ [CircularDependency (render_cycle reported), InitFailedCircular]) \<and>
       is_simple_cycle example_cyclic_graph reported \<and> hd reported = last reported \<and>
       length reported = card (set reported) + 1)"
proof -
  have h: "is_cycle example_cyclic_graph [''A'', ''B'', ''C'', ''A'']"
    by (simp add: is_cycle_def example_cyclic_graph_def edge_def)
  have run: "detect_cycles example_cyclic_graph (map fst example_cyclic_graph) []
     = Some (True, [CircularDependency ''A -> B -> C -> A'', InitFailedCircular])"
    by (simp add: example_cyclic_graph_def check_circular_dependency.simps
        check_dependencies.simps Let_def)
  show ?thesis using h run cycle_path_reported [OF h, of "[]"] by blast
qed

section \<open>Phase 1 and the abort of \<^verbatim>\<open>init\<close> on a cycle\<close>

lemma scan_entries_append:
  "scan_entries d (xs @ ys) s = scan_entries d ys (scan_entries d xs s)"
proof (induction xs arbitrary: s)
  case Nil
  show ?case by simp
next
  case (Cons e xs)
  obtain m pm where s: "s = (m, pm)" by (cases s)
  show ?case
    unfolding s by (simp add: Cons.IH Let_def split: prod.splits option.splits)
qed

lemma scan_entries_Cons: "scan_entries d (e # es) s = scan_entries d es (scan_entry d e s)"
  using scan_entries_append [of d "[e]" es s] by (simp add: scan_entry_def)

lemma scan_entry_skip:
  "\<not> is_dir e \<or> (init_py e = None \<and> adapter_json e = None) \<Longrightarrow> scan_entry d e (m, pm) = (m, pm)"
  by (auto simp: scan_entry_def)

lemma scan_entry_read:
  assumes "is_dir e" and "init_py e \<noteq> None \<or> adapter_json e \<noteq> None"
  shows "scan_entry d e (m, pm) =
     (case (case fst (read_metadata e) of None \<Rightarrow> None
            | Some raw \<Rightarrow> complete_metadata d (dir_name e) raw) of
        None \<Rightarrow> (m, pm\<lparr>executed := executed pm @ snd (read_metadata e)\<rparr>)
      | Some plugin_meta \<Rightarrow>
          (dict_set m (dir_name e) plugin_meta,
           pm\<lparr>executed := executed pm @ snd (read_metadata e),
              DEPENDENCY_GRAPH := dict_set (DEPENDENCY_GRAPH pm) (dir_name e)
                                    (map dep_name (dependencies plugin_meta))\<rparr>))"
  using assms
  by (cases "read_metadata e") (auto simp: scan_entry_def Let_def split: option.splits)

lemma read_metadata_units: "\<forall>u \<in> set (snd (read_metadata e)). u = InitPy (dir_name e)"
  by (simp add: read_metadata_def Let_def split: option.splits sum.splits init_module.splits)

lemma scan_entry_frame:
  "PLUGIN_REGISTRY (snd (scan_entry d e (m, pm))) = PLUGIN_REGISTRY pm \<and>
   LOADED_PLUGIN_VERSIONS (snd (scan_entry d e (m, pm))) = LOADED_PLUGIN_VERSIONS pm \<and>
   initialized (snd (scan_entry d e (m, pm))) = initialized pm \<and>
   error_log (snd (scan_entry d e (m, pm))) = error_log pm"
proof (cases "is_dir e \<and> (init_py e \<noteq> None \<or> adapter_json e \<noteq> None)")
  case True
  then show ?thesis by (simp add: scan_entry_read split: option.splits)
next
  case False
  then show ?thesis using scan_entry_skip [of e d m pm] by auto
qed

lemma scan_entry_executed:
  "\<exists>units. executed (snd (scan_entry d e (m, pm))) = executed pm @ units \<and>
           (\<forall>u \<in> set units. u = InitPy (dir_name e))"
proof (cases "is_dir e \<and> (init_py e \<noteq> None \<or> adapter_json e \<noteq> None)")
  case True
  then have "executed (snd (scan_entry d e (m, pm))) = executed pm @ snd (read_metadata e)"
    by (simp add: scan_entry_read split: option.splits)
  then show ?thesis using read_metadata_units by blast
next
  case False
  then have "scan_entry d e (m, pm) = (m, pm)" using scan_entry_skip [of e d m pm] by auto
  then show ?thesis by simp
qed

lemma scan_entries_frame:
  "PLUGIN_REGISTRY (snd (scan_entries d es (m, pm))) = PLUGIN_REGISTRY pm \<and>
   LOADED_PLUGIN_VERSIONS (snd (scan_entries d es (m, pm))) = LOADED_PLUGIN_VERSIONS pm \<and>
   initialized (snd (scan_entries d es (m, pm))) = initialized pm \<and>
   error_log (snd (scan_entries d es (m, pm))) = error_log pm"
proof (induction es arbitrary: m pm)
  case Nil
  show ?case by simp
next
  case (Cons e es)
  obtain m1 pm1 where s1: "scan_entry d e (m, pm) = (m1, pm1)" by (cases "scan_entry d e (m, pm)")
  show ?case
    using Cons.IH [of m1 pm1] scan_entry_frame [of d e m pm]
    by (simp only: scan_entries_Cons s1 snd_conv)
qed

lemma scan_entries_executed:
  "\<exists>units. executed (snd (scan_entries d es (m, pm))) = executed pm @ units \<and>
           (\<forall>u \<in> set units. \<exists>e \<in> set es. u = InitPy (dir_name e))"
proof (induction es arbitrary: m pm)
  case Nil
  show ?case by simp
next
  case (Cons e es)
  obtain m1 pm1 where s1: "scan_entry d e (m, pm) = (m1, pm1)" by (cases "scan_entry d e (m, pm)")
  obtain ran where ran: "executed pm1 = executed pm @ ran" "\<forall>u \<in> set ran. u = InitPy (dir_name e)"
    using scan_entry_executed [of d e m pm] s1 by auto
  obtain units where u: "executed (snd (scan_entries d es (m1, pm1))) = executed pm1 @ units"
    "\<forall>u \<in> set units. \<exists>e \<in> set es. u = InitPy (dir_name e)"
    using Cons.IH [of m1 pm1] by blast
  have "executed (snd (scan_entries d (e # es) (m, pm))) = executed pm @ (ran @ units)"
    using ran(1) u(1) by (simp add: scan_entries_Cons s1)
  moreover have "\<forall>u \<in> set (ran @ units). \<exists>e' \<in> set (e # es). u = InitPy (dir_name e')"
    using ran(2) u(2) by auto
  ultimately show ?case by blast
qed

lemma scan_entries_only_init:
  "\<exists>units. executed (snd (scan_entries d es (m, pm))) = executed pm @ units \<and>
           (\<forall>u \<in> set units. \<exists>n. u = InitPy n)"
proof -
  obtain units where u: "executed (snd (scan_entries d es (m, pm))) = executed pm @ units"
    "\<forall>u \<in> set units. \<exists>e \<in> set es. u = InitPy (dir_name e)"
    using scan_entries_executed by blast
  from u(2) have "\<forall>u \<in> set units. \<exists>n. u = InitPy n" by blast
  then show ?thesis using u(1) by blast
qed

lemma scan_entries_executed_mono:
  "set (executed pm) \<subseteq> set (executed (snd (scan_entries d es (m, pm))))"
  using scan_entries_executed [of d es m pm] by auto

lemma scan_entries_runs_init:
  assumes "e \<in> set es" and "is_dir e" and "adapter_json e = None" and "init_py e \<noteq> None"
  shows "InitPy (dir_name e) \<in> set (executed (snd (scan_entries d es (m, pm))))"
proof -
  from assms(1) obtain xs ys where es: "es = xs @ e # ys" by (meson split_list)
  obtain m1 pm1 where s1: "scan_entries d xs (m, pm) = (m1, pm1)"
    by (cases "scan_entries d xs (m, pm)")
  obtain m2 pm2 where s2: "scan_entry d e (m1, pm1) = (m2, pm2)"
    by (cases "scan_entry d e (m1, pm1)")
  have ran: "snd (read_metadata e) = [InitPy (dir_name e)]"
    using assms(3,4) by (auto simp: read_metadata_def split: option.splits init_module.splits)
  have "executed (snd (scan_entry d e (m1, pm1))) = executed pm1 @ [InitPy (dir_name e)]"
    using assms(2,4) ran by (simp add: scan_entry_read split: option.splits)
  then have "InitPy (dir_name e) \<in> set (executed pm2)" using s2 by simp
  then have "InitPy (dir_name e) \<in> set (executed (snd (scan_entries d ys (m2, pm2))))"
    using scan_entries_executed_mono by blast
  then show ?thesis by (simp add: es scan_entries_append s1 scan_entries_Cons s2)
qed
















text \<open>
  The reading of \<^verbatim>\<open>adapter.json\<close> fails for every file, well-formed or not, because
  the name \<^verbatim>\<open>json\<close> is not bound in the module.
\<close>

lemma json_load_fails: "json_load f = Inl (Exception ''NameError'')"
  by (simp add: json_load_def module_globals_def)

text \<open>
  Claim C1, as stated, at a concrete input.  The batch holds \<open>A\<close> and \<open>B\<close>, which
  depend on each other, and \<open>C\<close>, which depends on nothing and loads when it is alone.
  After \<^verbatim>\<open>init\<close> on the batch of three the registry is empty: \<open>C\<close> has not been loaded.
\<close>

theorem cycle_blocks_unrelated_plugin:
  "map_option (\<lambda>pm. (map name (PLUGIN_REGISTRY pm), initialized pm))
     (init cyclic_batch ''./plugins'' fresh_manager) = Some ([], False) \<and>
   map_option (\<lambda>pm. (map name (PLUGIN_REGISTRY pm), initialized pm))
     (init standalone_batch ''./plugins'' fresh_manager) = Some ([''C''], True)"
  by (simp add: init_def scan_plugins_metadata_def cyclic_batch_def standalone_batch_def
      fresh_manager_def sample_dir_def
      sample_meta_def read_metadata_def complete_metadata_def path_join_def Let_def load_core_def
      check_circular_dependency.simps check_dependencies.simps)

text \<open>
  Claim C1, amended.  When the dependency graph of the scanned batch contains a cycle,
  \<^verbatim>\<open>init\<close> returns normally, reports the path of a cycle and the failed
  initialisation in the error log, and abandons the batch as a whole: the registry
  and the table of loaded versions are empty, so no plugin of the batch is loaded,
  whether it lies on a cycle or not, no core module is executed, and the manager stays
  uninitialised.
\<close>

theorem init_abandons_batch_on_cycle:
  assumes "\<not> initialized pm"
    and "is_cycle (DEPENDENCY_GRAPH (snd (scan_plugins_metadata fs d
            (pm\<lparr>PLUGIN_REGISTRY := [], LOADED_PLUGIN_VERSIONS := [], DEPENDENCY_GRAPH := []\<rparr>)))) c"
  shows "\<exists>pm' reported.
           init fs d pm = Some pm' \<and>
           PLUGIN_REGISTRY pm' = [] \<and> LOADED_PLUGIN_VERSIONS pm' = [] \<and> \<not> initialized pm' \<and>
           error_log pm' = error_log pm
              @ [CircularDependency (render_cycle reported), InitFailedCircular] \<and>
           is_simple_cycle (DEPENDENCY_GRAPH pm') reported \<and>
           (\<forall>n. CorePy n \<in> set (executed pm') \<longrightarrow> CorePy n \<in> set (executed pm))"
proof -
  define pm0 where "pm0 = pm\<lparr>PLUGIN_REGISTRY := [], LOADED_PLUGIN_VERSIONS := [], DEPENDENCY_GRAPH := []\<rparr>"
  obtain metas pm1 where scan: "scan_plugins_metadata fs d pm0 = (metas, pm1)"
    by (cases "scan_plugins_metadata fs d pm0")
  have frame: "PLUGIN_REGISTRY pm1 = [] \<and> LOADED_PLUGIN_VERSIONS pm1 = [] \<and>
               initialized pm1 = initialized pm \<and> error_log pm1 = error_log pm"
  proof (cases "fs d")
    case None
    then show ?thesis using scan by (auto simp: scan_plugins_metadata_def pm0_def)
  next
    case (Some entries)
    then have "pm1 = snd (scan_entries d entries ([], pm0))"
      using scan by (simp add: scan_plugins_metadata_def)
    then show ?thesis using scan_entries_frame [of d entries "[]" pm0] by (simp add: pm0_def)
  qed
  have units: "\<exists>units. executed pm1 = executed pm @ units \<and> (\<forall>u \<in> set units. \<exists>n. u = InitPy n)"
  proof (cases "fs d")
    case None
    then show ?thesis using scan by (auto simp: scan_plugins_metadata_def pm0_def)
  next
    case (Some entries)
    then have "pm1 = snd (scan_entries d entries ([], pm0))"
      using scan by (simp add: scan_plugins_metadata_def)
    then show ?thesis using scan_entries_only_init [of d entries "[]" pm0] by (simp add: pm0_def)
  qed
  have cyc: "is_cycle (DEPENDENCY_GRAPH pm1) c"
    using assms(2) scan by (simp add: pm0_def)
  obtain lg' where found: "detect_cycles (DEPENDENCY_GRAPH pm1) (map fst (DEPENDENCY_GRAPH pm1))
      (error_log pm1) = Some (True, lg')"
    using cycle_found [OF cyc] by blast
  then obtain reported where rep:
    "lg' = error_log pm1 @ [CircularDependency (render_cycle reported), InitFailedCircular]"
    "is_simple_cycle (DEPENDENCY_GRAPH pm1) reported"
    using detect_cycles_found by blast
  have res: "init fs d pm = Some (pm1\<lparr>error_log := lg'\<rparr>)"
    using assms(1) scan found by (simp add: init_def pm0_def [symmetric] Let_def)
  have core: "\<forall>n. CorePy n \<in> set (executed (pm1\<lparr>error_log := lg'\<rparr>)) \<longrightarrow> CorePy n \<in> set (executed pm)"
    using units by auto
  show ?thesis
    using res frame rep core assms(1) by (intro exI [of _ "pm1\<lparr>error_log := lg'\<rparr>"] exI [of _ reported]) simp
qed

theorem init_abandons_batch_on_cycle_witness:
  "\<not> initialized fresh_manager \<and>
   is_cycle (DEPENDENCY_GRAPH (snd (scan_plugins_metadata cyclic_batch ''./plugins''
            (fresh_manager\<lparr>PLUGIN_REGISTRY := [], LOADED_PLUGIN_VERSIONS := [],
                DEPENDENCY_GRAPH := []\<rparr>)))) [''A'', ''B'', ''A''] \<and>
   (\<exists>pm' reported.
           init cyclic_batch ''./plugins'' fresh_manager = Some pm' \<and>
           PLUGIN_REGISTRY pm' = [] \<and> LOADED_PLUGIN_VERSIONS pm' = [] \<and> \<not> initialized pm' \<and>
           error_log pm' = error_log fresh_manager
              @ [CircularDependency (render_cycle reported), InitFailedCircular] \<and>
           is_simple_cycle (DEPENDENCY_GRAPH pm') reported)"
proof -
  have h1: "\<not> initialized fresh_manager" by (simp add: fresh_manager_def)
  have g: "DEPENDENCY_GRAPH (snd (scan_plugins_metadata cyclic_batch ''./plugins''
            (fresh_manager\<lparr>PLUGIN_REGISTRY := [], LOADED_PLUGIN_VERSIONS := [],
                DEPENDENCY_GRAPH := []\<rparr>)))
      = [(''A'', [''B'']), (''B'', [''A'']), (''C'', [])]"
    by (simp add: scan_plugins_metadata_def cyclic_batch_def fresh_manager_def sample_dir_def
      sample_meta_def read_metadata_def complete_metadata_def path_join_def Let_def)
  have h2: "is_cycle (DEPENDENCY_GRAPH (snd (scan_plugins_metadata cyclic_batch ''./plugins''
            (fresh_manager\<lparr>PLUGIN_REGISTRY := [], LOADED_PLUGIN_VERSIONS := [],
                DEPENDENCY_GRAPH := []\<rparr>)))) [''A'', ''B'', ''A'']"
    unfolding g by (simp add: is_cycle_def edge_def)
  from init_abandons_batch_on_cycle [OF h1 h2] h1 h2 show ?thesis by blast
qed

text \<open>
  Claim C3 at any input.  For every state of the manager and every plugin name, a
  call of \<^verbatim>\<open>reload_plugin\<close> ends with the exception \<^verbatim>\<open>UnboundLocalError\<close> and leaves the
  manager as it was: nothing is removed, nothing is loaded again, and no boolean is
  returned.
\<close>

theorem reload_plugin_raises:
  "reload_plugin fs pm plugin_name = Some (Raised (Exception ''UnboundLocalError''), pm)"
  by (simp add: reload_plugin_def)
section \<open>\<^verbatim>\<open>init\<close> returns for every plugin directory\<close>

lemma graph_of_dict_set:
  "graph_of (dict_set m k v) = dict_set (graph_of m) k (map dep_name (dependencies v))"
  by (induction m) (auto simp: graph_of_def)

lemma scan_entry_graph_of:
  assumes "DEPENDENCY_GRAPH pm = graph_of m"
  shows "DEPENDENCY_GRAPH (snd (scan_entry d e (m, pm))) = graph_of (fst (scan_entry d e (m, pm)))"
proof (cases "is_dir e \<and> (init_py e \<noteq> None \<or> adapter_json e \<noteq> None)")
  case True
  then show ?thesis using assms by (simp add: scan_entry_read graph_of_dict_set split: option.splits)
next
  case False
  then have "scan_entry d e (m, pm) = (m, pm)" using scan_entry_skip [of e d m pm] by auto
  then show ?thesis using assms by simp
qed

lemma scan_entries_graph_of:
  "DEPENDENCY_GRAPH pm = graph_of m \<Longrightarrow>
     DEPENDENCY_GRAPH (snd (scan_entries d es (m, pm))) = graph_of (fst (scan_entries d es (m, pm)))"
proof (induction es arbitrary: m pm)
  case Nil
  then show ?case by simp
next
  case (Cons e es)
  obtain m1 pm1 where s1: "scan_entry d e (m, pm) = (m1, pm1)" by (cases "scan_entry d e (m, pm)")
  have "DEPENDENCY_GRAPH pm1 = graph_of m1"
    using scan_entry_graph_of [OF Cons.prems, of d e] s1 by simp
  then show ?case using Cons.IH [of pm1 m1] by (simp add: scan_entries_Cons s1)
qed

lemma map_of_graph_of:
  "map_of (graph_of m) k = map_option (\<lambda>meta. map dep_name (dependencies meta)) (map_of m k)"
  by (induction m) (auto simp: graph_of_def)

lemma chain_closes_cycle:
  assumes "chain g (xs @ [a])" and "a \<in> set xs"
  shows "(a, a) \<in> (edges g)\<^sup>+"
proof -
  obtain ys where ys: "drop (index_of a xs) xs = a # ys"
    using index_of_drop [OF assms(2)] by blast
  have "chain g (drop (index_of a xs) (xs @ [a]))" by (rule chain_drop [OF assms(1)])
  moreover have "index_of a xs \<le> length xs"
    using ys by (metis drop_all linorder_le_cases list.distinct(1))
  ultimately have "chain g (a # ys @ [a])" using ys by simp
  then show ?thesis
  proof (cases ys)
    case Nil
    then show ?thesis using \<open>chain g (a # ys @ [a])\<close> by (simp add: edges_def r_into_trancl')
  next
    case (Cons y ys')
    then have "chain g (a # y # (ys' @ [a]))" using \<open>chain g (a # ys @ [a])\<close> by simp
    from chain_trancl [OF this] show ?thesis by simp
  qed
qed

lemma load_depth_enough:
  "chain (graph_of metas) (stack @ [nm]) \<Longrightarrow> distinct stack \<Longrightarrow>
     set stack \<subseteq> fst ` set metas \<Longrightarrow>
     \<forall>k \<in> fst ` set metas. (k, k) \<notin> (edges (graph_of metas))\<^sup>+ \<Longrightarrow>
     card (fst ` set metas) < length stack + n \<Longrightarrow>
     load_plugin n metas entries nm s \<noteq> None"
  "stack \<noteq> [] \<Longrightarrow> chain (graph_of metas) stack \<Longrightarrow> distinct stack \<Longrightarrow>
     set stack \<subseteq> fst ` set metas \<Longrightarrow>
     \<forall>k \<in> fst ` set metas. (k, k) \<notin> (edges (graph_of metas))\<^sup>+ \<Longrightarrow>
     \<forall>dep \<in> set deps. edge (graph_of metas) (last stack) (dep_name dep) \<Longrightarrow>
     card (fst ` set metas) < length stack + n \<Longrightarrow>
     load_dependencies n metas entries deps s \<noteq> None"
proof (induction n metas entries nm s and n metas entries deps s arbitrary: stack and stack
    rule: load_plugin_load_dependencies.induct)
  case (1 plugins_meta entries plugin_name s)
  have "length stack \<le> card (fst ` set plugins_meta)"
    using "1.prems"(2,3) by (metis card_mono distinct_card finite_imageI List.finite_set)
  then show ?case using "1.prems"(5) by simp
next
  case (2 depth plugins_meta entries plugin_name s)
  show ?case
  proof (cases "plugin_name \<in> fst s")
    case True
    then show ?thesis by simp
  next
    case nl: False
    show ?thesis
    proof (cases "map_of plugins_meta plugin_name")
      case None
      then show ?thesis using nl by simp
    next
      case (Some plugin_meta)
      have key: "plugin_name \<in> fst ` set plugins_meta"
        using Some by (metis map_of_eq_None_iff option.distinct(1))
      have fresh: "plugin_name \<notin> set stack"
        using chain_closes_cycle [OF "2.prems"(1)] "2.prems"(4) key by blast
      have a: "stack @ [plugin_name] \<noteq> []" by simp
      have b: "distinct (stack @ [plugin_name])" using "2.prems"(2) fresh by simp
      have c: "set (stack @ [plugin_name]) \<subseteq> fst ` set plugins_meta"
        using "2.prems"(3) key by simp
      have d: "\<forall>dep \<in> set (dependencies plugin_meta).
                 edge (graph_of plugins_meta) (last (stack @ [plugin_name])) (dep_name dep)"
        using Some by (simp add: edge_def map_of_graph_of)
      have e: "card (fst ` set plugins_meta) < length (stack @ [plugin_name]) + depth"
        using "2.prems"(5) by simp
      have "load_dependencies depth plugins_meta entries (dependencies plugin_meta) s \<noteq> None"
        by (rule "2.IH" [OF nl Some a "2.prems"(1) b c "2.prems"(4) d e])
      then obtain ok s' where
        ld: "load_dependencies depth plugins_meta entries (dependencies plugin_meta) s = Some (ok, s')"
        by (cases "load_dependencies depth plugins_meta entries (dependencies plugin_meta) s") auto
      show ?thesis using nl Some ld by (simp del: not_None_eq)
    qed
  qed
next
  case (3 depth plugins_meta entries s)
  show ?case by simp
next
  case (4 depth plugins_meta entries dep rest s)
  have rest_edges: "\<forall>dep \<in> set rest. edge (graph_of plugins_meta) (last stack) (dep_name dep)"
    using "4.prems"(6) by simp
  show ?case
  proof (cases "dep_name dep \<notin> fst s")
    case True
    have ch: "chain (graph_of plugins_meta) (stack @ [dep_name dep])"
      using "4.prems"(1,2,6) by (simp add: chain_snoc)
    have "load_plugin depth plugins_meta entries (dep_name dep) s \<noteq> None"
      by (rule "4.IH"(1) [OF True ch "4.prems"(3,4,5,7)])
    then obtain ok s' where
      inner: "load_plugin depth plugins_meta entries (dep_name dep) s = Some (ok, s')"
      by (cases "load_plugin depth plugins_meta entries (dep_name dep) s") auto
    show ?thesis
    proof (cases ok)
      case False
      then show ?thesis using True inner by simp
    next
      case ok: True
      have "load_dependencies depth plugins_meta entries rest s' \<noteq> None"
        by (rule "4.IH"(2) [OF True inner refl _ "4.prems"(1,2,3,4,5) rest_edges "4.prems"(7)])
           (simp add: ok)
      then show ?thesis using True inner ok by simp
    qed
  next
    case False
    have "load_dependencies depth plugins_meta entries rest s \<noteq> None"
      by (rule "4.IH"(3) [OF False "4.prems"(1,2,3,4,5) rest_edges "4.prems"(7)])
    then show ?thesis using False by simp
  qed
qed

lemma load_all_returns:
  assumes "\<forall>k \<in> fst ` set metas. (k, k) \<notin> (edges (graph_of metas))\<^sup>+"
  shows "load_all (Suc (length metas)) metas entries ks s \<noteq> None"
proof (induction ks arbitrary: s)
  case Nil
  show ?case by simp
next
  case (Cons k ks)
  have "card (fst ` set metas) \<le> length metas"
    by (metis card_image_le card_length le_trans List.finite_set)
  then have "card (fst ` set metas) < length ([] :: string list) + Suc (length metas)" by simp
  then have "load_plugin (Suc (length metas)) metas entries k s \<noteq> None"
    by (intro load_depth_enough(1) [where stack = "[]"]) (use assms in simp_all)
  then obtain ok s' where "load_plugin (Suc (length metas)) metas entries k s = Some (ok, s')"
    by (cases "load_plugin (Suc (length metas)) metas entries k s") auto
  then show ?case using Cons.IH [of s'] Cons.IH [of s] by (simp del: load_plugin.simps)
qed

lemma init_returns: "\<exists>pm'. init fs d pm = Some pm'"
proof (cases "initialized pm")
  case True
  then show ?thesis by (simp add: init_def)
next
  case False
  define pm0 where "pm0 = pm\<lparr>PLUGIN_REGISTRY := [], LOADED_PLUGIN_VERSIONS := [], DEPENDENCY_GRAPH := []\<rparr>"
  obtain metas pm1 where scan: "scan_plugins_metadata fs d pm0 = (metas, pm1)"
    by (cases "scan_plugins_metadata fs d pm0")
  have g: "DEPENDENCY_GRAPH pm1 = graph_of metas"
  proof (cases "fs d")
    case None
    then show ?thesis using scan by (auto simp: scan_plugins_metadata_def pm0_def graph_of_def)
  next
    case (Some entries)
    have "DEPENDENCY_GRAPH pm0 = graph_of []" by (simp add: pm0_def graph_of_def)
    from scan_entries_graph_of [OF this, of d entries] Some scan show ?thesis
      by (simp add: scan_plugins_metadata_def)
  qed
  obtain f lg where det: "detect_cycles (DEPENDENCY_GRAPH pm1) (map fst (DEPENDENCY_GRAPH pm1))
      (error_log pm1) = Some (f, lg)"
    using detect_cycles_returns by blast
  show ?thesis
  proof (cases f)
    case True
    then show ?thesis using False scan det by (simp add: init_def pm0_def [symmetric] Let_def)
  next
    case nf: False
    then have det': "detect_cycles (DEPENDENCY_GRAPH pm1) (map fst (DEPENDENCY_GRAPH pm1))
      (error_log pm1) = Some (False, lg)" using det by simp
    have a1: "\<forall>k \<in> set (map fst (DEPENDENCY_GRAPH pm1)). (k, k) \<notin> (edges (DEPENDENCY_GRAPH pm1))\<^sup>+"
      using detect_cycles_none [OF det'] by blast
    have keys: "set (map fst (graph_of metas)) = fst ` set metas"
      by (force simp: graph_of_def)
    have acyc: "\<forall>k \<in> fst ` set metas. (k, k) \<notin> (edges (graph_of metas))\<^sup>+"
    proof
      fix k assume "k \<in> fst ` set metas"
      then have "k \<in> set (map fst (DEPENDENCY_GRAPH pm1))" using keys g by simp
      then show "(k, k) \<notin> (edges (graph_of metas))\<^sup>+" using a1 g by metis
    qed
    obtain r where "load_all (Suc (length metas)) metas
        (case fs d of None \<Rightarrow> [] | Some es \<Rightarrow> es) (map fst metas) ({}, pm1\<lparr>error_log := lg\<rparr>) = Some r"
      using load_all_returns [OF acyc] by (metis not_None_eq)
    then show ?thesis
      using False scan det nf
      by (cases r) (simp add: init_def pm0_def [symmetric] Let_def del: load_all.simps)
  qed
qed

section \<open>Permission checks reject every malformed caller id\<close>

text \<open>
  Claim C10.  A caller id that does not match \<^verbatim>\<open>^[1-9]\d{4,14}$\<close> is denied every
  permission, whatever the role table, the configured master and self ids and the
  blacklist are; so a granted permission implies a well-formed id.  Ids of fewer than
  five digits, ids with a leading zero and the id \<open>system\<close> are malformed.
\<close>

theorem check_permission_requires_valid_qq:
  "(\<not> is_valid_qq uid \<longrightarrow>
      check_permission self_id sm uid perm = (False, InvalidUserId)) \<and>
   (fst (check_permission self_id sm uid perm) \<longrightarrow> is_valid_qq uid) \<and>
   \<not> is_valid_qq ''1234'' \<and> \<not> is_valid_qq ''012345'' \<and> \<not> is_valid_qq ''system''"
proof (intro conjI impI)
  show "check_permission self_id sm uid perm = (False, InvalidUserId)"
    if "\<not> is_valid_qq uid"
    using that by (simp add: check_permission_def)
  show "is_valid_qq uid" if "fst (check_permission self_id sm uid perm)"
    using that by (cases "is_valid_qq uid") (simp_all add: check_permission_def)
  show "\<not> is_valid_qq ''1234''" by (simp add: is_valid_qq_def is_digit_def)
  show "\<not> is_valid_qq ''012345''" by (simp add: is_valid_qq_def is_digit_def)
  show "\<not> is_valid_qq ''system''" by (simp add: is_valid_qq_def is_digit_def)
qed

theorem check_permission_requires_valid_qq_witness:
  "\<not> is_valid_qq ''system'' \<and>
   check_permission ''system''
     \<lparr>limiter = \<lparr>requests = Map.empty\<rparr>,
      role_permissions = initial_role_permissions,
      user_roles = [''system'' \<mapsto> MASTER],
      blacklist = Map.empty,
      audit_logs = []\<rparr> ''system'' ''basic_query'' = (False, InvalidUserId)"
proof -
  have h: "\<not> is_valid_qq ''system''" by (simp add: is_valid_qq_def is_digit_def)
  show ?thesis
    using h check_permission_requires_valid_qq [of "''system''" "''system''"
        "\<lparr>limiter = \<lparr>requests = Map.empty\<rparr>,
          role_permissions = initial_role_permissions,
          user_roles = [''system'' \<mapsto> MASTER],
          blacklist = Map.empty,
          audit_logs = []\<rparr>" "''basic_query''"]
    by blast
qed

section \<open>The sliding window of the rate limiter\<close>

lemma run_checks_all_allowed:
  assumes "requests rl key = Some rs \<or> (requests rl key = None \<and> rs = [])"
    and "length rs + length ts \<le> 60"
    and "\<forall>a \<in> set (rs @ ts). \<forall>b \<in> set (rs @ ts). b - a < 60"
  shows "run_checks rl key ts
         = (replicate (length ts) (True, None), rl\<lparr>requests := (requests rl)(key \<mapsto> rs @ ts)\<rparr>)
           \<or> (ts = [] \<and> run_checks rl key ts = ([], rl))"
  using assms
proof (induction ts arbitrary: rl rs)
  case Nil
  show ?case by simp
next
  case (Cons t ts)
  have rec: "(case requests rl key of None \<Rightarrow> [] | Some ts \<Rightarrow> ts) = rs"
    using Cons.prems(1) by auto
  have close: "\<forall>a \<in> set rs. t - a < 60" using Cons.prems(3) by simp
  then have kept: "[x \<leftarrow> rs. t - x < 3600] = rs"
    by (simp add: filter_id_conv) (smt (verit))
  have minute: "[x \<leftarrow> rs. t - x < 60] = rs" using close by (simp add: filter_id_conv)
  have short: "length rs < 60" using Cons.prems(2) by simp
  define rl' where "rl' = rl\<lparr>requests := (requests rl)(key \<mapsto> rs @ [t])\<rparr>"
  have step: "limiter_check_rate_limit t rl key = ((True, None), rl')"
    unfolding limiter_check_rate_limit_def rec Let_def kept minute
    using short
    by (simp add: rl'_def max_requests_per_minute_def max_requests_per_hour_def)
  have r': "requests rl' key = Some (rs @ [t])" by (simp add: rl'_def)
  have "run_checks rl' key ts
         = (replicate (length ts) (True, None), rl'\<lparr>requests := (requests rl')(key \<mapsto> (rs @ [t]) @ ts)\<rparr>)
           \<or> (ts = [] \<and> run_checks rl' key ts = ([], rl'))"
  proof (rule Cons.IH)
    show "requests rl' key = Some (rs @ [t]) \<or> requests rl' key = None \<and> rs @ [t] = []"
      using r' by simp
    show "length (rs @ [t]) + length ts \<le> 60" using Cons.prems(2) by simp
    show "\<forall>a \<in> set ((rs @ [t]) @ ts). \<forall>b \<in> set ((rs @ [t]) @ ts). b - a < 60"
      using Cons.prems(3) by simp
  qed
  then have "run_checks rl' key ts
         = (replicate (length ts) (True, None), rl\<lparr>requests := (requests rl)(key \<mapsto> rs @ t # ts)\<rparr>)"
    by (auto simp: rl'_def)
  then show ?case using step by (simp add: fun_upd_def)
qed

lemma sorted_span:
  fixes ts :: "real list"
  assumes "sorted ts" "a \<in> set ts" "b \<in> set ts"
  shows "b - a \<le> last ts - hd ts"
proof -
  from assms have ne: "ts \<noteq> []" by auto
  have "hd ts \<le> a"
    using assms(1,2) ne by (cases ts) auto
  moreover have "b \<le> last ts"
  proof -
    obtain i where i: "i < length ts" "ts ! i = b" using assms(3) by (auto simp: in_set_conv_nth)
    have "ts ! i \<le> ts ! (length ts - 1)"
      by (rule sorted_nth_mono [OF assms(1)]) (use i in auto)
    then show ?thesis using i ne by (simp add: last_conv_nth)
  qed
  ultimately show ?thesis by simp
qed

text \<open>
  Claim C6.  For one key without recorded requests, sixty requests that arrive in
  order within one window of sixty seconds are all allowed.  A further request at a
  time less than sixty seconds after the first one is denied with the per-minute
  message and leaves the limiter as it was: no timestamp is recorded for it.  A request
  at a time sixty seconds or more after the first one is allowed again.
\<close>

theorem rate_limiter_sixty_per_minute:
  assumes "requests rl key = None \<or> requests rl key = Some []"
    and "length ts = 60" and "sorted ts" and "last ts - hd ts < 60"
  shows "fst (run_checks rl key ts) = replicate 60 (True, None) \<and>
         requests (snd (run_checks rl key ts)) key = Some ts \<and>
         (\<forall>t. t - hd ts < 60 \<longrightarrow>
            limiter_check_rate_limit t (snd (run_checks rl key ts)) key
              = ((False, Some TooManyPerMinute), snd (run_checks rl key ts))) \<and>
         (\<forall>t. 60 \<le> t - hd ts \<longrightarrow>
            fst (limiter_check_rate_limit t (snd (run_checks rl key ts)) key) = (True, None))"
proof -
  have ne: "ts \<noteq> []" using assms(2) by auto
  have pair: "\<forall>a \<in> set ([] @ ts). \<forall>b \<in> set ([] @ ts). b - a < 60"
    using sorted_span [OF assms(3)] assms(4) by fastforce
  have "run_checks rl key ts
         = (replicate (length ts) (True, None), rl\<lparr>requests := (requests rl)(key \<mapsto> [] @ ts)\<rparr>)
           \<or> (ts = [] \<and> run_checks rl key ts = ([], rl))"
    by (rule run_checks_all_allowed) (use assms(1,2) pair in auto)
  then have run: "run_checks rl key ts
         = (replicate 60 (True, None), rl\<lparr>requests := (requests rl)(key \<mapsto> ts)\<rparr>)"
    using ne assms(2) by simp
  define rl' where "rl' = rl\<lparr>requests := (requests rl)(key \<mapsto> ts)\<rparr>"
  have snd_run: "snd (run_checks rl key ts) = rl'" and fst_run: "fst (run_checks rl key ts) = replicate 60 (True, None)"
    using run by (simp_all add: rl'_def)
  have stored: "requests rl' key = Some ts" by (simp add: rl'_def)
  have rec: "(case requests rl' key of None \<Rightarrow> [] | Some xs \<Rightarrow> xs) = ts"
    by (simp add: stored)
  have hd_in: "hd ts \<in> set ts" using ne by simp
  have denied: "limiter_check_rate_limit t rl' key = ((False, Some TooManyPerMinute), rl')"
    if "t - hd ts < 60" for t
  proof -
    have close: "\<forall>x \<in> set ts. t - x < 60"
    proof
      fix x assume x: "x \<in> set ts"
      have "hd ts \<le> x" using assms(3) x ne by (cases ts) auto
      then show "t - x < 60" using that by simp
    qed
    then have kept: "[x \<leftarrow> ts. t - x < 3600] = ts"
      by (simp add: filter_id_conv) (smt (verit))
    have minute: "[x \<leftarrow> ts. t - x < 60] = ts" using close by (simp add: filter_id_conv)
    have same: "rl'\<lparr>requests := (requests rl')(key \<mapsto> ts)\<rparr> = rl'"
      using stored by (simp add: fun_upd_idem)
    show ?thesis
      unfolding limiter_check_rate_limit_def rec Let_def kept minute same
      by (simp add: assms(2) max_requests_per_minute_def)
  qed
  have allowed: "fst (limiter_check_rate_limit t rl' key) = (True, None)"
    if "60 \<le> t - hd ts" for t
  proof -
    define kept where "kept = [x \<leftarrow> ts. t - x < 3600]"
    have k60: "length kept \<le> 60" using assms(2) length_filter_le [of _ ts] by (simp add: kept_def)
    have "[x \<leftarrow> kept. t - x < 60] = [x \<leftarrow> ts. t - x < 60]"
      unfolding kept_def filter_filter by (rule filter_cong) auto
    moreover have "length [x \<leftarrow> ts. t - x < 60] < length ts"
      by (rule length_filter_less [OF hd_in]) (use that in simp)
    ultimately have m59: "length [x \<leftarrow> kept. t - x < 60] < 60" using assms(2) by simp
    show ?thesis
      unfolding limiter_check_rate_limit_def rec Let_def kept_def [symmetric]
      using m59 k60 by (simp add: max_requests_per_minute_def max_requests_per_hour_def)
  qed
  show ?thesis
    unfolding snd_run fst_run using stored denied allowed by blast
qed

theorem rate_limiter_sixty_per_minute_witness:
  "requests \<lparr>requests = Map.empty\<rparr> ''user_10001'' = None \<and>
   length sixty_requests = 60 \<and> sorted sixty_requests \<and>
   last sixty_requests - hd sixty_requests < 60 \<and>
   fst (run_checks \<lparr>requests = Map.empty\<rparr> ''user_10001'' sixty_requests)
     = replicate 60 (True, None) \<and>
   limiter_check_rate_limit (59 + 1 / 2)
       (snd (run_checks \<lparr>requests = Map.empty\<rparr> ''user_10001'' sixty_requests)) ''user_10001''
     = ((False, Some TooManyPerMinute),
        snd (run_checks \<lparr>requests = Map.empty\<rparr> ''user_10001'' sixty_requests)) \<and>
   fst (limiter_check_rate_limit 60
       (snd (run_checks \<lparr>requests = Map.empty\<rparr> ''user_10001'' sixty_requests)) ''user_10001'')
     = (True, None)"
proof -
  have h1: "requests \<lparr>requests = Map.empty\<rparr> ''user_10001'' = None
            \<or> requests \<lparr>requests = Map.empty\<rparr> ''user_10001'' = Some []" by simp
  have h2: "length sixty_requests = 60" by (simp add: sixty_requests_def)
  have h3: "sorted sixty_requests"
    unfolding sixty_requests_def by (simp add: sorted_map del: upt.simps)
  have hd0: "hd sixty_requests = 0" by (simp add: sixty_requests_def hd_map)
  have last59: "last sixty_requests = 59" by (simp add: sixty_requests_def last_map)
  have h4: "last sixty_requests - hd sixty_requests < 60" by (simp add: hd0 last59)
  note t = rate_limiter_sixty_per_minute [OF h1 h2 h3 h4]
  have d: "(59 + 1 / 2 :: real) - hd sixty_requests < 60" by (simp add: hd0)
  have a: "(60 :: real) \<le> 60 - hd sixty_requests" by (simp add: hd0)
  from t d have "limiter_check_rate_limit (59 + 1 / 2)
       (snd (run_checks \<lparr>requests = Map.empty\<rparr> ''user_10001'' sixty_requests)) ''user_10001''
     = ((False, Some TooManyPerMinute),
        snd (run_checks \<lparr>requests = Map.empty\<rparr> ''user_10001'' sixty_requests))"
    by blast
  moreover from t a have "fst (limiter_check_rate_limit 60
       (snd (run_checks \<lparr>requests = Map.empty\<rparr> ''user_10001'' sixty_requests)) ''user_10001'')
     = (True, None)"
    by blast
  moreover from t have "fst (run_checks \<lparr>requests = Map.empty\<rparr> ''user_10001'' sixty_requests)
     = replicate 60 (True, None)"
    by blast
  ultimately show ?thesis using h2 h3 h4 by simp
qed

section \<open>Handler exceptions are contained by the dispatch\<close>

lemma log_audit_event_fields [simp]:
  "user_roles (log_audit_event s' sm u a r b) = user_roles sm"
  "blacklist (log_audit_event s' sm u a r b) = blacklist sm"
  "role_permissions (log_audit_event s' sm u a r b) = role_permissions sm"
  "limiter (log_audit_event s' sm u a r b) = limiter sm"
  by (simp_all add: log_audit_event_def Let_def)

lemma check_permission_cong:
  "user_roles sm = user_roles sm' \<Longrightarrow> blacklist sm = blacklist sm' \<Longrightarrow>
   role_permissions sm = role_permissions sm' \<Longrightarrow>
   check_permission s sm v p = check_permission s sm' v p"
  by (simp add: check_permission_def get_user_role_def Let_def split: option.splits)

lemma check_permission_audit [simp]:
  "check_permission s (log_audit_event s' sm u a r b) v p = check_permission s sm v p"
  by (rule check_permission_cong) simp_all

lemma validate_plugin_access_True [simp]: "validate_plugin_access s sm n u"
  by (simp add: validate_plugin_access_def split: prod.splits)

lemma auto_reply_stage_monitor [simp]:
  "monitor (snd (auto_reply_stage env gw pd)) = monitor gw"
  by (simp add: auto_reply_stage_def Let_def split: import_result.splits sum.splits option.splits)

lemma auto_reply_stage_raises:
  "fst (auto_reply_stage env gw pd) = Some x \<Longrightarrow>
     import_openai env = ImportRaises x \<or> openai_auto_reply env (pd_raw_msg pd) = Inl x"
  by (auto simp: auto_reply_stage_def Let_def split: import_result.splits sum.splits option.splits if_splits)

lemma record_failed_counts:
  "executions_of (record_plugin_execution mm n t False) n = executions_of mm n + 1"
  "successes_of (record_plugin_execution mm n t False) n = successes_of mm n"
  "m \<noteq> n \<Longrightarrow> plugin_stats (record_plugin_execution mm n t False) m = plugin_stats mm m"
  by (simp_all add: record_plugin_execution_def executions_of_def successes_of_def Let_def
      split: option.splits)

lemma plugin_stage_handler_raises:
  assumes "fst (check_permission (self_qq env) (security gw) (pd_sender_id pd) ''basic_query'') \<or>
      fst (check_permission (self_qq env) (security gw) (pd_sender_id pd) ''use_plugins'')"
    and "pd_chat_type pd = Some ctype"
    and "get_matched_plugin (master_qq env) (registry gw) (pd_raw_msg pd) ctype (pd_sender_id pd)
          (pd_is_at_bot pd) = Some plugin"
    and "run_handler env plugin pd = Some e" and "is_Exception e"
  shows "plugin_stage env gw pd =
     (None, False,
      gw\<lparr>monitor := record_plugin_execution (monitor gw) (name plugin) (plugin_execution_time env) False,
         security := log_audit_event (self_qq env) (security gw) (pd_sender_id pd)
                       (Some ''plugin_executed'') (Some (name plugin)) (Some False)\<rparr>)"
  using assms by (auto simp: plugin_stage_def Let_def split: prod.splits)


lemma plugin_stage_handler_exits:
  assumes "fst (check_permission (self_qq env) (security gw) (pd_sender_id pd) ''basic_query'') \<or>
      fst (check_permission (self_qq env) (security gw) (pd_sender_id pd) ''use_plugins'')"
    and "pd_chat_type pd = Some ctype"
    and "get_matched_plugin (master_qq env) (registry gw) (pd_raw_msg pd) ctype (pd_sender_id pd)
          (pd_is_at_bot pd) = Some plugin"
    and "run_handler env plugin pd = Some e" and "\<not> is_Exception e"
  shows "plugin_stage env gw pd = (Some e, False, gw)"
  using assms by (auto simp: plugin_stage_def Let_def split: prod.splits)

lemma handler_exit_request_propagates:
  assumes "handler_invoked env gw pd plugin"
    and "run_handler env plugin pd = Some e" and "\<not> is_Exception e"
  shows "fst (dispatch_plugin_cmd env gw pd) = Raised e"
    and "monitor (snd (dispatch_plugin_cmd env gw pd)) = monitor gw"
proof -
  define gw1 where "gw1 = gw\<lparr>security := log_audit_event (self_qq env) (security gw) (pd_sender_id pd)
                                   (Some ''message_received'') None (Some True)\<rparr>"
  from assms(1) obtain ctype where
    not_builtin: "\<not> (strip (pd_raw_msg pd) = about_command env \<and> validate_command env (pd_raw_msg pd))"
    and perm: "fst (check_permission (self_qq env) (security gw) (pd_sender_id pd) ''basic_query'') \<or>
      fst (check_permission (self_qq env) (security gw) (pd_sender_id pd) ''use_plugins'')"
    and ct: "pd_chat_type pd = Some ctype"
    and matched: "get_matched_plugin (master_qq env) (registry gw) (pd_raw_msg pd) ctype
          (pd_sender_id pd) (pd_is_at_bot pd) = Some plugin"
    by (auto simp: handler_invoked_def)
  have stage: "plugin_stage env gw1 pd = (Some e, False, gw1)"
    by (rule plugin_stage_handler_exits [OF _ ct _ assms(2,3)])
       (use perm matched in \<open>simp_all add: gw1_def\<close>)
  have disp: "dispatch_plugin_cmd env gw pd = (Raised e, gw1)"
    using not_builtin stage
    by (auto simp: dispatch_plugin_cmd_def Let_def case_prod_beta gw1_def [symmetric]
        split: option.splits)
  show "fst (dispatch_plugin_cmd env gw pd) = Raised e" by (simp add: disp)
  show "monitor (snd (dispatch_plugin_cmd env gw pd)) = monitor gw"
    by (simp add: disp gw1_def)
qed

text \<open>
  Claim C8, as stated, at a concrete input.  The handler of the matched plugin \<open>A\<close>
  calls \<^verbatim>\<open>sys.exit()\<close>: it raises \<^verbatim>\<open>SystemExit\<close>, which is an exception but not an
  instance of \<^verbatim>\<open>Exception\<close>.  Neither \<^verbatim>\<open>except Exception\<close> of
  \<^verbatim>\<open>dispatch_plugin_cmd\<close> catches it: it leaves the function, and no execution is
  recorded for \<open>A\<close>.
\<close>

theorem handler_exit_request_escapes:
  "handler_invoked (example_env (\<lambda>_ _. Some (ExitRequest ''SystemExit'')))
     (example_gateway \<lparr>requests = Map.empty\<rparr>) example_parsed example_plugin_A \<and>
   run_handler (example_env (\<lambda>_ _. Some (ExitRequest ''SystemExit''))) example_plugin_A example_parsed
     = Some (ExitRequest ''SystemExit'') \<and>
   fst (dispatch_plugin_cmd (example_env (\<lambda>_ _. Some (ExitRequest ''SystemExit'')))
       (example_gateway \<lparr>requests = Map.empty\<rparr>) example_parsed)
     = Raised (ExitRequest ''SystemExit'') \<and>
   executions_of (monitor (snd (dispatch_plugin_cmd (example_env (\<lambda>_ _. Some (ExitRequest ''SystemExit'')))
       (example_gateway \<lparr>requests = Map.empty\<rparr>) example_parsed))) ''A'' = 0 \<and>
   plugin_stats (monitor (snd (dispatch_plugin_cmd (example_env (\<lambda>_ _. Some (ExitRequest ''SystemExit'')))
       (example_gateway \<lparr>requests = Map.empty\<rparr>) example_parsed))) = Map.empty"
proof -
  let ?env = "example_env (\<lambda>_ _. Some (ExitRequest ''SystemExit''))"
  let ?gw = "example_gateway \<lparr>requests = Map.empty\<rparr>"
  have valid: "is_valid_qq ''10001''" by (simp add: is_valid_qq_def is_digit_def)
  have h1: "handler_invoked ?env ?gw example_parsed example_plugin_A"
    using valid
    by (simp add: handler_invoked_def example_env_def example_gateway_def example_parsed_def
        example_plugin_A_def check_permission_def get_user_role_def strip_def is_space_def)
  have h2: "run_handler ?env example_plugin_A example_parsed = Some (ExitRequest ''SystemExit'')"
    by (simp add: example_env_def)
  have h3: "\<not> is_Exception (ExitRequest ''SystemExit'')" by simp
  have stats: "plugin_stats (monitor ?gw) = Map.empty"
    by (simp add: example_gateway_def)
  note t = handler_exit_request_propagates [OF h1 h2 h3]
  show ?thesis using h1 h2 t stats by (simp add: executions_of_def)
qed

text \<open>
  Claim C8, amended.  When \<^verbatim>\<open>dispatch_plugin_cmd\<close> calls the handler of a matched
  plugin and the handler raises an instance of \<^verbatim>\<open>Exception\<close>, the accountant records
  exactly one execution for that plugin and no success (the counters of every other
  plugin stay as they were), and the exception does not leave the function: the
  function returns a response, unless the automatic reply that runs afterwards raises
  an exit request of its own.  An exit request raised by the handler (\<^verbatim>\<open>SystemExit\<close>,
  \<^verbatim>\<open>KeyboardInterrupt\<close>, \<^verbatim>\<open>GeneratorExit\<close>) is outside this statement: it
  propagates and nothing is recorded, as the preceding theorem shows.
\<close>

theorem handler_exception_contained:
  assumes "handler_invoked env gw pd plugin"
    and "run_handler env plugin pd = Some e" and "is_Exception e"
  shows "executions_of (monitor (snd (dispatch_plugin_cmd env gw pd))) (name plugin)
           = executions_of (monitor gw) (name plugin) + 1 \<and>
         successes_of (monitor (snd (dispatch_plugin_cmd env gw pd))) (name plugin)
           = successes_of (monitor gw) (name plugin) \<and>
         (\<forall>n. n \<noteq> name plugin \<longrightarrow>
            plugin_stats (monitor (snd (dispatch_plugin_cmd env gw pd))) n
              = plugin_stats (monitor gw) n) \<and>
         fst (dispatch_plugin_cmd env gw pd) \<noteq> Raised e \<and>
         (\<forall>x. fst (dispatch_plugin_cmd env gw pd) = Raised x \<longrightarrow>
            \<not> is_Exception x \<and>
            (import_openai env = ImportRaises x \<or> openai_auto_reply env (pd_raw_msg pd) = Inl x)) \<and>
         ((\<forall>x. import_openai env = ImportRaises x \<or> openai_auto_reply env (pd_raw_msg pd) = Inl x
               \<longrightarrow> is_Exception x) \<longrightarrow>
            (\<exists>resp. fst (dispatch_plugin_cmd env gw pd) = Returned resp))"
proof -
  define gw1 where "gw1 = gw\<lparr>security := log_audit_event (self_qq env) (security gw) (pd_sender_id pd)
                                   (Some ''message_received'') None (Some True)\<rparr>"
  define gw3 where "gw3 = gw1\<lparr>monitor := record_plugin_execution (monitor gw1) (name plugin)
                              (plugin_execution_time env) False,
         security := log_audit_event (self_qq env) (security gw1) (pd_sender_id pd)
                       (Some ''plugin_executed'') (Some (name plugin)) (Some False)\<rparr>"
  from assms(1) obtain ctype where
    not_builtin: "\<not> (strip (pd_raw_msg pd) = about_command env \<and> validate_command env (pd_raw_msg pd))"
    and perm: "fst (check_permission (self_qq env) (security gw) (pd_sender_id pd) ''basic_query'') \<or>
      fst (check_permission (self_qq env) (security gw) (pd_sender_id pd) ''use_plugins'')"
    and ct: "pd_chat_type pd = Some ctype"
    and matched: "get_matched_plugin (master_qq env) (registry gw) (pd_raw_msg pd) ctype
          (pd_sender_id pd) (pd_is_at_bot pd) = Some plugin"
    by (auto simp: handler_invoked_def)
  have stage: "plugin_stage env gw1 pd = (None, False, gw3)"
    unfolding gw3_def
    by (rule plugin_stage_handler_raises [OF _ ct _ assms(2,3)])
       (use perm matched in \<open>simp_all add: gw1_def\<close>)
  have disp: "dispatch_plugin_cmd env gw pd =
      (case fst (auto_reply_stage env gw3 pd) of
         None \<Rightarrow> (Returned (Response 0 200), snd (auto_reply_stage env gw3 pd))
       | Some x \<Rightarrow> if is_Exception x then (Returned (Response 1 500), snd (auto_reply_stage env gw3 pd))
                  else (Raised x, snd (auto_reply_stage env gw3 pd)))"
    using not_builtin stage
    by (auto simp: dispatch_plugin_cmd_def Let_def case_prod_beta gw1_def [symmetric]
        split: option.splits)
  have mon: "monitor (snd (dispatch_plugin_cmd env gw pd))
             = record_plugin_execution (monitor gw) (name plugin) (plugin_execution_time env) False"
    unfolding disp by (simp add: gw3_def gw1_def split: option.splits)
  have raised: "\<not> is_Exception x \<and>
      (import_openai env = ImportRaises x \<or> openai_auto_reply env (pd_raw_msg pd) = Inl x)"
    if "fst (dispatch_plugin_cmd env gw pd) = Raised x" for x
  proof -
    from that have "fst (auto_reply_stage env gw3 pd) = Some x \<and> \<not> is_Exception x"
      unfolding disp by (auto split: option.splits if_splits)
    then show ?thesis using auto_reply_stage_raises by blast
  qed
  have not_e: "fst (dispatch_plugin_cmd env gw pd) \<noteq> Raised e"
    using raised [of e] assms(3) by blast
  have returned: "\<exists>resp. fst (dispatch_plugin_cmd env gw pd) = Returned resp"
    if "\<forall>x. import_openai env = ImportRaises x \<or> openai_auto_reply env (pd_raw_msg pd) = Inl x
               \<longrightarrow> is_Exception x"
  proof (cases "fst (dispatch_plugin_cmd env gw pd)")
    case (Raised x)
    then show ?thesis using raised [of x] that by blast
  next
    case (Returned r)
    then show ?thesis by blast
  qed
  show ?thesis
    unfolding mon using record_failed_counts [where mm = "monitor gw" and n = "name plugin"] not_e raised returned
    by (simp add: mon)
qed

theorem handler_exception_contained_witness:
  "handler_invoked (example_env (\<lambda>_ _. Some (Exception ''boom''))) (example_gateway \<lparr>requests = Map.empty\<rparr>)
     example_parsed example_plugin_A \<and>
   is_Exception (Exception ''boom'') \<and>
   executions_of (monitor (snd (dispatch_plugin_cmd (example_env (\<lambda>_ _. Some (Exception ''boom'')))
       (example_gateway \<lparr>requests = Map.empty\<rparr>) example_parsed))) ''A'' = 1 \<and>
   successes_of (monitor (snd (dispatch_plugin_cmd (example_env (\<lambda>_ _. Some (Exception ''boom'')))
       (example_gateway \<lparr>requests = Map.empty\<rparr>) example_parsed))) ''A'' = 0 \<and>
   (\<exists>resp. fst (dispatch_plugin_cmd (example_env (\<lambda>_ _. Some (Exception ''boom'')))
       (example_gateway \<lparr>requests = Map.empty\<rparr>) example_parsed) = Returned resp)"
proof -
  let ?env = "example_env (\<lambda>_ _. Some (Exception ''boom''))"
  let ?gw = "example_gateway \<lparr>requests = Map.empty\<rparr>"
  have valid: "is_valid_qq ''10001''" by (simp add: is_valid_qq_def is_digit_def)
  have h1: "handler_invoked ?env ?gw example_parsed example_plugin_A"
    using valid
    by (simp add: handler_invoked_def example_env_def example_gateway_def example_parsed_def
        example_plugin_A_def check_permission_def get_user_role_def strip_def is_space_def)
  have h2: "run_handler ?env example_plugin_A example_parsed = Some (Exception ''boom'')"
    by (simp add: example_env_def)
  have h3: "is_Exception (Exception ''boom'')" by simp
  have n: "name example_plugin_A = ''A''" by (simp add: example_plugin_A_def)
  have zero: "executions_of (monitor ?gw) ''A'' = 0" "successes_of (monitor ?gw) ''A'' = 0"
    by (simp_all add: executions_of_def successes_of_def example_gateway_def)
  have quiet: "\<forall>x. import_openai ?env = ImportRaises x
      \<or> openai_auto_reply ?env (pd_raw_msg example_parsed) = Inl x \<longrightarrow> is_Exception x"
    by (simp add: example_env_def)
  note t = handler_exception_contained [OF h1 h2 h3, unfolded n]
  from t zero quiet show ?thesis using h1 h3 by simp
qed

section \<open>The rate-limit checks of the callback\<close>

lemma limiter_denies_when_full:
  assumes "requests rl key = Some ts" and "60 \<le> length ts" and "\<forall>x \<in> set ts. t - x < 60"
  shows "limiter_check_rate_limit t rl key = ((False, Some TooManyPerMinute), rl)"
proof -
  have rec: "(case requests rl key of None \<Rightarrow> [] | Some xs \<Rightarrow> xs) = ts"
    by (simp add: assms(1))
  have kept: "[x \<leftarrow> ts. t - x < 3600] = ts"
    using assms(3) by (simp add: filter_id_conv) (smt (verit))
  have minute: "[x \<leftarrow> ts. t - x < 60] = ts" using assms(3) by (simp add: filter_id_conv)
  have same: "rl\<lparr>requests := (requests rl)(key \<mapsto> ts)\<rparr> = rl"
    using assms(1) by (simp add: fun_upd_idem)
  show ?thesis
    unfolding limiter_check_rate_limit_def rec Let_def kept minute same
    using assms(2) by (simp add: max_requests_per_minute_def)
qed

lemma sixty_requests_recent: "\<forall>x \<in> set sixty_requests. (59 + 1 / 2 :: real) - x < 60"
  by (auto simp: sixty_requests_def)

lemma check_rate_limit_fields [simp]:
  "user_roles (snd (check_rate_limit t sm k)) = user_roles sm"
  "blacklist (snd (check_rate_limit t sm k)) = blacklist sm"
  "role_permissions (snd (check_rate_limit t sm k)) = role_permissions sm"
  "audit_logs (snd (check_rate_limit t sm k)) = audit_logs sm"
  by (simp_all add: check_rate_limit_def case_prod_beta)

lemma user_check_denied:
  "check_rate_limit (59 + 1 / 2) (sm\<lparr>limiter := saturated_limiter\<rparr>) ''user_10001''
    = ((False, Some TooManyPerMinute), sm\<lparr>limiter := saturated_limiter\<rparr>)"
proof -
  have "limiter_check_rate_limit (59 + 1 / 2) saturated_limiter ''user_10001''
        = ((False, Some TooManyPerMinute), saturated_limiter)"
    by (rule limiter_denies_when_full [OF _ _ sixty_requests_recent])
       (simp_all add: saturated_limiter_def sixty_requests_def)
  then show ?thesis by (simp add: check_rate_limit_def)
qed

text \<open>
  Claim C2 at a concrete input.  User 10001 has sixty requests recorded within the
  last minute and sends a further private message \<open>foo\<close>.  The limiter answers the
  check for the key \<open>user_10001\<close> with a denial, yet \<^verbatim>\<open>callback_base\<close> returns the
  parsed message instead of a rejection and sends no notice, and the pipeline goes on
  to run the handler of the matched plugin (the accountant records one successful
  execution).
\<close>

theorem rate_limit_denial_not_enforced:
  "fst (check_rate_limit (59 + 1 / 2) (security (example_gateway saturated_limiter)) ''user_10001'')
     = (False, Some TooManyPerMinute) \<and>
   fst (callback_base (example_env (\<lambda>_ _. None)) 59 (59 + 1 / 2)
          (example_gateway saturated_limiter) example_request)
     = Returned (Inr example_parsed) \<and>
   outbox (snd (callback_base (example_env (\<lambda>_ _. None)) 59 (59 + 1 / 2)
          (example_gateway saturated_limiter) example_request)) = [] \<and>
   fst (callback (example_env (\<lambda>_ _. None)) 59 (59 + 1 / 2)
          (example_gateway saturated_limiter) example_request)
     = Returned (Response 0 200) \<and>
   successes_of (monitor (snd (callback (example_env (\<lambda>_ _. None)) 59 (59 + 1 / 2)
          (example_gateway saturated_limiter) example_request))) ''A'' = 1"
proof -
  let ?env = "example_env (\<lambda>_ _. None)"
  let ?gw = "example_gateway saturated_limiter"
  define sm1 where "sm1 = snd (check_rate_limit 59 (security ?gw) ''127.0.0.1'')"
  have lim1: "limiter sm1 = \<lparr>requests = [''user_10001'' \<mapsto> sixty_requests, ''127.0.0.1'' \<mapsto> [59]]\<rparr>"
    by (simp add: sm1_def check_rate_limit_def limiter_check_rate_limit_def example_gateway_def
        saturated_limiter_def max_requests_per_minute_def max_requests_per_hour_def)
  have user: "limiter_check_rate_limit (59 + 1 / 2) (limiter sm1) ''user_10001''
        = ((False, Some TooManyPerMinute), limiter sm1)"
    by (rule limiter_denies_when_full [OF _ _ sixty_requests_recent])
       (simp_all add: lim1 sixty_requests_def)
  have c1: "fst (check_rate_limit (59 + 1 / 2) (security ?gw) ''user_10001'')
     = (False, Some TooManyPerMinute)"
    using user_check_denied [of "security ?gw"] by (simp add: example_gateway_def)
  have user': "check_rate_limit (59 + 1 / 2) sm1 ''user_10001''
        = ((False, Some TooManyPerMinute), sm1)"
    using user by (simp add: check_rate_limit_def)
  have cb: "callback_base ?env 59 (59 + 1 / 2) ?gw example_request
        = (Returned (Inr example_parsed), ?gw\<lparr>security := sm1\<rparr>)"
    using user'
    by (simp add: callback_base_def Let_def case_prod_beta tuple_truthy_def sm1_def [symmetric]
        example_request_def example_data_def example_parsed_def example_env_def
        validate_input_def strip_def is_space_def)
  have valid: "is_valid_qq ''10001''" by (simp add: is_valid_qq_def is_digit_def)
  have perm: "check_permission [] sm1 ''10001'' p = check_permission [] (security ?gw) ''10001'' p" for p
    by (rule check_permission_cong) (simp_all add: sm1_def)
  have basic: "check_permission [] sm1 ''10001'' ''basic_query'' = (True, PermissionGranted GUEST)"
    unfolding perm using valid
    by (simp add: check_permission_def get_user_role_def example_gateway_def)
  have stage: "plugin_stage ?env (?gw\<lparr>security := log_audit_event [] sm1 ''10001''
                  (Some ''message_received'') None (Some True)\<rparr>) example_parsed
      = (None, True,
         ?gw\<lparr>security := log_audit_event [] (log_audit_event [] sm1 ''10001''
                  (Some ''message_received'') None (Some True)) ''10001''
                  (Some ''plugin_executed'') (Some ''A'') (Some True),
              monitor := record_plugin_execution (monitor ?gw) ''A'' (1 / 4) True\<rparr>)"
    using basic
    by (simp add: plugin_stage_def Let_def case_prod_beta example_env_def example_parsed_def
        example_gateway_def example_plugin_A_def)
  have disp: "dispatch_plugin_cmd ?env (?gw\<lparr>security := sm1\<rparr>) example_parsed
      = (Returned (Response 0 200),
         ?gw\<lparr>security := log_audit_event [] (log_audit_event [] sm1 ''10001''
                  (Some ''message_received'') None (Some True)) ''10001''
                  (Some ''plugin_executed'') (Some ''A'') (Some True),
              monitor := record_plugin_execution (monitor ?gw) ''A'' (1 / 4) True\<rparr>)"
    using stage
    by (simp add: dispatch_plugin_cmd_def Let_def case_prod_beta example_env_def example_parsed_def
        strip_def is_space_def)
  have cbk: "callback ?env 59 (59 + 1 / 2) ?gw example_request
      = dispatch_plugin_cmd ?env (?gw\<lparr>security := sm1\<rparr>) example_parsed"
    by (simp only: callback_def cb prod.case outcome.case sum.case)
  have succ: "successes_of (record_plugin_execution (monitor ?gw) ''A'' (1 / 4) True) ''A'' = 1"
    by (simp add: successes_of_def record_plugin_execution_def example_gateway_def)
  show ?thesis
    unfolding cbk disp cb using c1 succ by (simp add: example_gateway_def)
qed


lemma callback_base_no_rate_rejection:
  "fst (callback_base env now_ip now_user gw req) \<noteq> Returned (Inl (Response 429 429)) \<and>
   outbox (snd (callback_base env now_ip now_user gw req)) = outbox gw"
  by (simp add: callback_base_def Let_def case_prod_beta tuple_truthy_def
      split: option.splits import_result.splits)

end
